theory Spec2Isabelle
  imports
    Complex_Main
    "HOL-Library.Word"
    "HOL-Library.Char_ord"
    "HOL-Library.List_Lexorder"
    "HOL-Library.Product_Lexorder"
    "HOL-Library.Multiset"
begin

section \<open>Strings, as Go has them\<close>

text \<open>
  A Go string is a sequence of bytes; \<^typ>\<open>string\<close> is a list of 8-bit characters, so the
  two coincide. The regular expressions of \<open>main.go\<close> only name ASCII characters and every
  byte of a multi-byte UTF-8 sequence is at least \<open>0x80\<close>, so matching byte by byte gives
  the matches that Go's rune by rune matching gives.
\<close>

text \<open>\<open>strings.Split(s, sep)\<close> for a separator of one byte: the fields between the separators.\<close>

function strings_Split :: "string \<Rightarrow> char \<Rightarrow> string list" where
  "strings_Split s sep =
     (case dropWhile (\<lambda>c. c \<noteq> sep) s of
        [] \<Rightarrow> [s]
      | _ # rest \<Rightarrow> takeWhile (\<lambda>c. c \<noteq> sep) s # strings_Split rest sep)"
  by pat_completeness auto
termination
proof (relation "measure (\<lambda>(s, sep). length s)")
  show "wf (measure (\<lambda>(s, sep). length s))"
    by simp
next
  fix s :: string and sep :: char and x rest
  assume "dropWhile (\<lambda>c. c \<noteq> sep) s = x # rest"
  then have "length rest < length (dropWhile (\<lambda>c. c \<noteq> sep) s)"
    by simp
  also have "\<dots> \<le> length s"
    by (rule length_dropWhile_le)
  finally show "((rest, sep), (s, sep)) \<in> measure (\<lambda>(s, sep). length s)"
    by simp
qed

declare strings_Split.simps [simp del]

definition strings_HasPrefix :: "string \<Rightarrow> string \<Rightarrow> bool" where
  "strings_HasPrefix s p = (take (length p) s = p)"

text \<open>
  \<open>strings.Trim(s, cutset)\<close> for an ASCII cutset: the bytes of the cutset are removed from
  the left end, then from the right end.
\<close>

definition strings_Trim :: "string \<Rightarrow> string \<Rightarrow> string" where
  "strings_Trim s cutset =
     rev (dropWhile (\<lambda>c. c \<in> set cutset) (rev (dropWhile (\<lambda>c. c \<in> set cutset) s)))"

text \<open>
  \<open>strings.TrimSpace\<close> removes the leading and trailing runes for which
  \<open>unicode.IsSpace\<close> holds. These are their UTF-8 encodings: the six ASCII ones, U+0085,
  U+00A0, U+1680, U+2000 to U+200A, U+2028, U+2029, U+202F, U+205F and U+3000.
\<close>

definition white_space :: "string list" where
  "white_space =
     [[CHR 0x09], [CHR 0x0A], [CHR 0x0B], [CHR 0x0C], [CHR 0x0D], [CHR 0x20],
      [CHR 0xC2, CHR 0x85], [CHR 0xC2, CHR 0xA0],
      [CHR 0xE1, CHR 0x9A, CHR 0x80],
      [CHR 0xE2, CHR 0x80, CHR 0x80], [CHR 0xE2, CHR 0x80, CHR 0x81],
      [CHR 0xE2, CHR 0x80, CHR 0x82], [CHR 0xE2, CHR 0x80, CHR 0x83],
      [CHR 0xE2, CHR 0x80, CHR 0x84], [CHR 0xE2, CHR 0x80, CHR 0x85],
      [CHR 0xE2, CHR 0x80, CHR 0x86], [CHR 0xE2, CHR 0x80, CHR 0x87],
      [CHR 0xE2, CHR 0x80, CHR 0x88], [CHR 0xE2, CHR 0x80, CHR 0x89],
      [CHR 0xE2, CHR 0x80, CHR 0x8A],
      [CHR 0xE2, CHR 0x80, CHR 0xA8], [CHR 0xE2, CHR 0x80, CHR 0xA9],
      [CHR 0xE2, CHR 0x80, CHR 0xAF], [CHR 0xE2, CHR 0x81, CHR 0x9F],
      [CHR 0xE3, CHR 0x80, CHR 0x80]]"

text \<open>The number of bytes of the rune of \<open>runes\<close> that \<open>s\<close> starts with; 0 when there is none.\<close>

definition leading_rune :: "string list \<Rightarrow> string \<Rightarrow> nat" where
  "leading_rune runes s =
     (case filter (\<lambda>r. r \<noteq> [] \<and> take (length r) s = r) runes of
        [] \<Rightarrow> 0
      | r # _ \<Rightarrow> length r)"

lemma leading_rune_Nil: "leading_rune runes [] = 0"
proof -
  have "filter (\<lambda>r. r \<noteq> [] \<and> take (length r) [] = r) runes = []"
    by (induction runes) auto
  then show ?thesis
    by (simp add: leading_rune_def)
qed

function trim_left_runes :: "string list \<Rightarrow> string \<Rightarrow> string" where
  "trim_left_runes runes s =
     (if leading_rune runes s = 0 then s
      else trim_left_runes runes (drop (leading_rune runes s) s))"
  by pat_completeness auto
termination
proof (relation "measure (\<lambda>(runes, s). length s)")
  show "wf (measure (\<lambda>(runes, s). length s))"
    by simp
next
  fix runes :: "string list" and s :: string
  assume pos: "leading_rune runes s \<noteq> 0"
  then have "s \<noteq> []"
    using leading_rune_Nil by auto
  with pos show "((runes, drop (leading_rune runes s) s), (runes, s))
      \<in> measure (\<lambda>(runes, s). length s)"
    by simp
qed

declare trim_left_runes.simps [simp del]

definition strings_TrimSpace :: "string \<Rightarrow> string" where
  "strings_TrimSpace s =
     rev (trim_left_runes (map rev white_space) (rev (trim_left_runes white_space s)))"

text \<open>Go's \<open>int\<close>, 64 bits wide; its arithmetic wraps around.\<close>

type_synonym go_int = "64 word"

text \<open>
  \<open>strconv.Atoi\<close> on a 64-bit platform. A syntax error gives 0 and a value out of range
  gives the nearest bound, each with an error that \<open>main.go\<close> discards.
\<close>

definition is_digit :: "char \<Rightarrow> bool" where
  "is_digit c = (c \<in> set ''0123456789'')"

definition decimal :: "string \<Rightarrow> int" where
  "decimal ds = foldl (\<lambda>n c. 10 * n + (of_char c - 48)) 0 ds"

definition parse_uint :: "string \<Rightarrow> int option" where
  "parse_uint ds = (if ds \<noteq> [] \<and> list_all is_digit ds then Some (decimal ds) else None)"

definition strconv_Atoi :: "string \<Rightarrow> go_int" where
  "strconv_Atoi s =
     (case s of
        [] \<Rightarrow> 0
      | c # cs \<Rightarrow>
          (if c = CHR ''-'' then
             (case parse_uint cs of
                None \<Rightarrow> 0
              | Some n \<Rightarrow> if n > 2 ^ 63 then - (2 ^ 63) else - of_int n)
           else
             (case parse_uint (if c = CHR ''+'' then cs else s) of
                None \<Rightarrow> 0
              | Some n \<Rightarrow> if n \<ge> 2 ^ 63 then 2 ^ 63 - 1 else of_int n)))"

section \<open>The two regular expressions\<close>

text \<open>
  \<open>scoreRegex = (\d+)/6|X/6\<close>. At a given start the first alternative can only match
  with the whole run of digits there (after a shorter run the next byte is a digit, not
  \<open>/\<close>), and the second alternative starts with \<open>X\<close>. \<open>FindString\<close> returns the match
  at the leftmost start that has one, and the empty string when there is none.
\<close>

text \<open>The strings that the whole of \<open>scoreRegex\<close> matches.\<close>

definition scoreRegex_language :: "string \<Rightarrow> bool" where
  "scoreRegex_language m =
     (m = ''X/6'' \<or> (\<exists>ds. ds \<noteq> [] \<and> list_all is_digit ds \<and> m = ds @ ''/6''))"

definition scoreRegex_match_at :: "string \<Rightarrow> string" where
  "scoreRegex_match_at s =
     (let ds = takeWhile is_digit s in
      if ds \<noteq> [] \<and> take 2 (dropWhile is_digit s) = ''/6'' then ds @ ''/6''
      else if take 3 s = ''X/6'' then ''X/6''
      else [])"

fun scoreRegex_FindString :: "string \<Rightarrow> string" where
  "scoreRegex_FindString [] = []"
| "scoreRegex_FindString (c # cs) =
     (if scoreRegex_match_at (c # cs) \<noteq> [] then scoreRegex_match_at (c # cs)
      else scoreRegex_FindString cs)"

text \<open>
  \<open>userRegex = @\S+\<close>, where \<open>\S\<close> is any character but tab, newline, form feed,
  carriage return and space. \<open>FindAllString(line, -1)\<close> returns the successive matches,
  each as long as possible, the search going on where the last match ended.
\<close>

definition non_space :: "char \<Rightarrow> bool" where
  "non_space c = (c \<notin> set [CHR 0x09, CHR 0x0A, CHR 0x0C, CHR 0x0D, CHR 0x20])"

function userRegex_FindAllString :: "string \<Rightarrow> string list" where
  "userRegex_FindAllString [] = []"
| "userRegex_FindAllString (c # cs) =
     (if c = CHR ''@'' \<and> takeWhile non_space cs \<noteq> []
      then (c # takeWhile non_space cs) # userRegex_FindAllString (dropWhile non_space cs)
      else userRegex_FindAllString cs)"
  by pat_completeness auto
termination
  by (relation "measure length") (auto simp: le_imp_less_Suc length_dropWhile_le)

declare scoreRegex_FindString.simps [simp del]
declare userRegex_FindAllString.simps [simp del]

section \<open>Parsing a results message\<close>

definition cleanUsername :: "string \<Rightarrow> string" where
  "cleanUsername username = strings_Trim (strings_TrimSpace username) ''@<>''"

text \<open>
  The body of the loop over the lines in \<open>processWordleResultsMessage\<close>. The map
  \<open>dailyUsers\<close> is a partial function from usernames to scores. A match of \<open>scoreRegex\<close>
  has a \<open>/\<close>, and \<open>strings.Split\<close> returns at least one field, so the index \<open>[0]\<close> is
  in range.
\<close>

definition line_score :: "string \<Rightarrow> go_int" where
  "line_score scoreMatch =
     (if strings_HasPrefix scoreMatch ''X'' then 7
      else strconv_Atoi (hd (strings_Split scoreMatch CHR ''/'')))"

definition process_line :: "string \<Rightarrow> (string \<rightharpoonup> go_int) \<Rightarrow> (string \<rightharpoonup> go_int)" where
  "process_line line dailyUsers =
     (let scoreMatch = scoreRegex_FindString line in
      if scoreMatch \<noteq> [] then
        fold (\<lambda>user m. m(cleanUsername user \<mapsto> line_score scoreMatch))
          (userRegex_FindAllString line) dailyUsers
      else dailyUsers)"

text \<open>The map \<open>dailyUsers\<close> that \<open>processWordleResultsMessage\<close> builds from a message.\<close>

definition parse_dailyUsers :: "string \<Rightarrow> (string \<rightharpoonup> go_int)" where
  "parse_dailyUsers message = fold process_line (strings_Split message CHR 0x0A) Map.empty"


section \<open>The leaderboard table\<close>

text \<open>
  A row of the table \<open>leaderboard\<close> is \<open>(username, score, days_played)\<close>; the column
  \<open>id\<close> is never read. The integers are SQLite's 64-bit INTEGER, read into and written
  from Go's \<open>int\<close>, whose \<open>+\<close> wraps around. The table is the list of its rows in the
  order of their insertion.
\<close>

type_synonym row = "string \<times> go_int \<times> go_int"

datatype statement = INSERT string go_int go_int | UPDATE string go_int go_int

fun statement_user :: "statement \<Rightarrow> string" where
  "statement_user (INSERT u s d) = u"
| "statement_user (UPDATE u s d) = u"

text \<open>
  The effect of a statement that succeeds. The column \<open>username\<close> is UNIQUE: an INSERT of a
  name that is there already is refused and leaves the table as it was.
\<close>

fun run_statement :: "statement \<Rightarrow> row list \<Rightarrow> row list" where
  "run_statement (INSERT u s d) rows =
     (if u \<in> fst ` set rows then rows else rows @ [(u, s, d)])"
| "run_statement (UPDATE u s d) rows =
     map (\<lambda>(u', s', d'). if u' = u then (u', s, d) else (u', s', d')) rows"

declare run_statement.simps [simp del]

text \<open>
  The global \<open>db\<close>: the table, and the statements that \<open>db.Exec\<close> was called with so far
  (a history that the program does not read; it counts the writes).
\<close>

record database =
  leaderboard :: "row list"
  exec_log :: "statement list"

text \<open>
  Which calls of the storage fail during a run: the query for all usernames, the scan of
  the row of a username in that query, the query for the row of a username (with an
  error other than \<open>sql.ErrNoRows\<close>), \<open>db.Exec\<close> on the row of a username, the query
  of \<open>sendLeaderboard\<close>, and the scan of a row there. A row that \<open>rows.Next\<close> does
  not reach, because it stops at an error, counts as a row whose scan fails: either way
  the row is skipped.
\<close>

record faults =
  users_query_fails :: bool
  users_scan_fails :: "string \<Rightarrow> bool"
  row_query_fails :: "string \<Rightarrow> bool"
  exec_fails :: "string \<Rightarrow> bool"
  board_query_fails :: bool
  board_scan_fails :: "string \<Rightarrow> bool"

definition no_faults :: faults where
  "no_faults =
     \<lparr>users_query_fails = False, users_scan_fails = (\<lambda>_. False),
      row_query_fails = (\<lambda>_. False), exec_fails = (\<lambda>_. False),
      board_query_fails = False, board_scan_fails = (\<lambda>_. False)\<rparr>"

text \<open>Only the query for all usernames fails.\<close>

definition users_query_failure :: faults where
  "users_query_failure = no_faults\<lparr>users_query_fails := True\<rparr>"

text \<open>The query for all usernames succeeds and the scan of each of its rows fails.\<close>

definition users_scans_failure :: faults where
  "users_scans_failure = no_faults\<lparr>users_scan_fails := (\<lambda>_. True)\<rparr>"

definition db_Exec :: "faults \<Rightarrow> statement \<Rightarrow> database \<Rightarrow> database" where
  "db_Exec f st db =
     db\<lparr>leaderboard :=
          (if exec_fails f (statement_user st) then leaderboard db
           else run_statement st (leaderboard db)),
        exec_log := exec_log db @ [st]\<rparr>"

text \<open>
  \<open>SELECT score, days_played FROM leaderboard WHERE username = ?\<close> read by \<open>QueryRow\<close>
  and \<open>Scan\<close>: the first row of that name; \<open>None\<close> is \<open>sql.ErrNoRows\<close>.
\<close>

definition select_row :: "row list \<Rightarrow> string \<Rightarrow> (go_int \<times> go_int) option" where
  "select_row rows username = map_of rows username"

section \<open>Scoring\<close>

definition updateCumulativeScore ::
    "faults \<Rightarrow> string \<Rightarrow> go_int \<Rightarrow> bool \<Rightarrow> database \<Rightarrow> database" where
  "updateCumulativeScore f username score incrementDays db =
     (if row_query_fails f username then db
      else
        (case select_row (leaderboard db) username of
           None \<Rightarrow>
             db_Exec f (INSERT username score (if incrementDays then 1 else 0)) db
         | Some (currentScore, daysPlayed) \<Rightarrow>
             db_Exec f
               (UPDATE username (currentScore + score)
                  (if incrementDays then daysPlayed + 1 else daysPlayed))
               db))"

text \<open>The literal that line 194 of \<open>main.go\<close> compares the user with.\<close>

definition excluded_user :: string where
  "excluded_user = ''Dumb Ass Nigga''"

text \<open>The set \<open>dbUsers\<close> built from the rows of \<open>SELECT username FROM leaderboard\<close>.\<close>

definition scan_dbUsers :: "faults \<Rightarrow> row list \<Rightarrow> (string \<rightharpoonup> bool)" where
  "scan_dbUsers f rows =
     fold (\<lambda>(username, _, _) dbUsers.
             if users_scan_fails f username then dbUsers else dbUsers(username \<mapsto> True))
       rows Map.empty"

text \<open>
  Go visits the keys of a map in an order it does not specify, each key once. The two
  \<open>range\<close> loops of \<open>updateScoresBasedOnResults\<close> take the order of their visits as a
  list of keys; \<open>range_order m ks\<close> says that \<open>ks\<close> is such an order for the map \<open>m\<close>.
\<close>

definition range_order :: "('k \<rightharpoonup> 'v) \<Rightarrow> 'k list \<Rightarrow> bool" where
  "range_order m ks = (distinct ks \<and> set ks = dom m)"

text \<open>The body of the loop over \<open>dailyUsers\<close>; a key of the map has a score.\<close>

definition score_user ::
    "faults \<Rightarrow> (string \<rightharpoonup> go_int) \<Rightarrow> string \<Rightarrow>
      database \<times> (string \<rightharpoonup> bool) \<Rightarrow> database \<times> (string \<rightharpoonup> bool)" where
  "score_user f dailyUsers user st =
     (case dailyUsers user of
        None \<Rightarrow> st
      | Some score \<Rightarrow>
          (updateCumulativeScore f user score True (fst st), (snd st)(user \<mapsto> False)))"

text \<open>The body of the loop over \<open>dbUsers\<close>; a key that the map lacks reads as \<open>false\<close>.\<close>

definition penalise_user :: "faults \<Rightarrow> (string \<rightharpoonup> bool) \<Rightarrow> string \<Rightarrow> database \<Rightarrow> database" where
  "penalise_user f dbUsers user db =
     (if dbUsers user = Some True \<and> user \<noteq> excluded_user
      then updateCumulativeScore f user 7 False db
      else db)"

text \<open>The state after the loop over \<open>dailyUsers\<close>: the database and the map \<open>dbUsers\<close>.\<close>

definition score_dailyUsers ::
    "faults \<Rightarrow> string list \<Rightarrow> (string \<rightharpoonup> go_int) \<Rightarrow> database \<Rightarrow>
      database \<times> (string \<rightharpoonup> bool)" where
  "score_dailyUsers f daily_order dailyUsers db =
     fold (score_user f dailyUsers) daily_order (db, scan_dbUsers f (leaderboard db))"

definition updateScoresBasedOnResults ::
    "faults \<Rightarrow> string list \<Rightarrow> string list \<Rightarrow> (string \<rightharpoonup> go_int) \<Rightarrow> database \<Rightarrow> database" where
  "updateScoresBasedOnResults f daily_order users_order dailyUsers db =
     (if users_query_fails f then db
      else
        (let st = score_dailyUsers f daily_order dailyUsers db
         in fold (penalise_user f (snd st)) users_order (fst st)))"

section \<open>The leaderboard\<close>

text \<open>
  SQLite evaluates \<open>score * 1.0 / days_played\<close> in IEEE 754 double precision: both
  integers are converted to the nearest double and so is their quotient, ties going to
  the even significand. \<open>round_float64 x\<close> is the double nearest to a rational \<open>x\<close>;
  the quotients of 64-bit integers are far from the overflow and underflow of doubles.
\<close>

text \<open>The number of binary digits of a positive integer.\<close>

function bit_length :: "int \<Rightarrow> int" where
  "bit_length n = (if n \<le> 0 then 0 else 1 + bit_length (n div 2))"
  by pat_completeness auto
termination
  by (relation "measure nat") auto

declare bit_length.simps [simp del]

definition round_half_even :: "rat \<Rightarrow> int" where
  "round_half_even x =
     (let n = \<lfloor>x\<rfloor>; r = x - of_int n in
      if r < 1 / 2 then n
      else if 1 / 2 < r then n + 1
      else if even n then n else n + 1)"

text \<open>The \<open>e\<close> with \<open>2 ^ e \<le> \<bar>x\<bar> < 2 ^ (e + 1)\<close>, for \<open>x \<noteq> 0\<close>.\<close>

definition binary_exponent :: "rat \<Rightarrow> int" where
  "binary_exponent x =
     (let (p, q) = quotient_of \<bar>x\<bar>;
          k = bit_length p - bit_length q
      in if 2 powi k \<le> \<bar>x\<bar> then k else k - 1)"

definition round_float64 :: "rat \<Rightarrow> rat" where
  "round_float64 x =
     (if x = 0 then 0
      else
        (let e = binary_exponent x
         in sgn x * of_int (round_half_even (\<bar>x\<bar> * 2 powi (52 - e))) * 2 powi (e - 52)))"

definition sql_average :: "go_int \<Rightarrow> go_int \<Rightarrow> rat" where
  "sql_average score days_played =
     round_float64
       (round_float64 (of_int (sint score)) / round_float64 (of_int (sint days_played)))"

text \<open>
  \<open>ORDER BY (score * 1.0 / days_played) ASC, days_played DESC, username ASC\<close>: the rows
  are ordered by this key, lexicographically; text compares byte by byte.
\<close>

definition order_key :: "row \<Rightarrow> rat \<times> int \<times> string" where
  "order_key r =
     (case r of (username, score, days_played) \<Rightarrow>
        (sql_average score days_played, - sint days_played, username))"

definition select_leaderboard :: "row list \<Rightarrow> row list" where
  "select_leaderboard rows =
     sort_key order_key (filter (\<lambda>(username, score, days_played). 0 <s days_played) rows)"

text \<open>
  What is sent to the channel. The text of the leaderboard (a header, then a line for each
  entry with its rank, its mention and its average to two decimal places, or a notice
  when there is no entry) is not modelled: the message is the list of its entries, the
  entry of rank 1 first.
\<close>

datatype message = Acknowledgment | Leaderboard "row list"

definition sendLeaderboard :: "faults \<Rightarrow> database \<Rightarrow> message list" where
  "sendLeaderboard f db =
     (if board_query_fails f then []
      else
        [Leaderboard
           (filter (\<lambda>(username, totalScore, daysPlayed). \<not> board_scan_fails f username)
              (select_leaderboard (leaderboard db)))])"

text \<open>The new database and the messages sent, in order.\<close>

definition processWordleResultsMessage ::
    "faults \<Rightarrow> string list \<Rightarrow> string list \<Rightarrow> string \<Rightarrow> database \<Rightarrow> database \<times> message list" where
  "processWordleResultsMessage f daily_order users_order message db =
     (let db' = updateScoresBasedOnResults f daily_order users_order (parse_dailyUsers message) db
      in (db', Acknowledgment # sendLeaderboard f db'))"

section \<open>Auxiliary notions\<close>

text \<open>
  What \<open>updateCumulativeScore\<close> makes of the stored row \<open>old\<close> of a user (\<open>None\<close> when
  there is none), and the statement it sends for that.
\<close>

definition scored_row :: "(go_int \<times> go_int) option \<Rightarrow> go_int \<Rightarrow> bool \<Rightarrow> go_int \<times> go_int" where
  "scored_row old score incrementDays =
     (case old of
        None \<Rightarrow> (score, if incrementDays then 1 else 0)
      | Some (currentScore, daysPlayed) \<Rightarrow>
          (currentScore + score, if incrementDays then daysPlayed + 1 else daysPlayed))"

definition score_statement ::
    "string \<Rightarrow> (go_int \<times> go_int) option \<Rightarrow> go_int \<Rightarrow> bool \<Rightarrow> statement" where
  "score_statement username old score incrementDays =
     (case old of
        None \<Rightarrow> INSERT username score (if incrementDays then 1 else 0)
      | Some (currentScore, daysPlayed) \<Rightarrow>
          UPDATE username (currentScore + score)
            (if incrementDays then daysPlayed + 1 else daysPlayed))"

text \<open>
  The order of \<open>ORDER BY\<close> written out: the row \<open>r1\<close> comes before the row \<open>r2\<close>, or
  ties with it.
\<close>

definition sql_before :: "row \<Rightarrow> row \<Rightarrow> bool" where
  "sql_before r1 r2 =
     (case (r1, r2) of
        ((username1, score1, days1), (username2, score2, days2)) \<Rightarrow>
          sql_average score1 days1 < sql_average score2 days2 \<or>
          sql_average score1 days1 = sql_average score2 days2 \<and>
            (sint days2 < sint days1 \<or> days1 = days2 \<and> username1 \<le> username2))"

section \<open>The specification's words\<close>

text \<open>
  A RawScore as the specification has it: an integer in the range 1 to 6, or the
  sentinel 7.
\<close>

definition valid_RawScore :: "go_int \<Rightarrow> bool" where
  "valid_RawScore score = ((1 \<le>s score \<and> score \<le>s 6) \<or> score = 7)"

text \<open>
  A stored row is not decreased or reset: from \<open>old\<close> to \<open>new\<close> it stays, and neither
  its score nor its days get smaller.
\<close>

definition never_decreased ::
    "(go_int \<times> go_int) option \<Rightarrow> (go_int \<times> go_int) option \<Rightarrow> bool" where
  "never_decreased old new =
     (case old of
        None \<Rightarrow> True
      | Some (c, d) \<Rightarrow> (case new of None \<Rightarrow> False | Some (c', d') \<Rightarrow> c \<le>s c' \<and> d \<le>s d'))"

text \<open>
  The ranking as the specification has it: ascending by the average as a real number,
  ties broken by descending days, then by ascending username.
\<close>

definition real_average :: "go_int \<Rightarrow> go_int \<Rightarrow> rat" where
  "real_average score days_played = of_int (sint score) / of_int (sint days_played)"

definition spec_before :: "row \<Rightarrow> row \<Rightarrow> bool" where
  "spec_before r1 r2 =
     (case (r1, r2) of
        ((username1, score1, days1), (username2, score2, days2)) \<Rightarrow>
          real_average score1 days1 < real_average score2 days2 \<or>
          real_average score1 days1 = real_average score2 days2 \<and>
            (sint days2 < sint days1 \<or> days1 = days2 \<and> username1 \<le> username2))"

definition ranked_by_real_average :: "row list \<Rightarrow> bool" where
  "ranked_by_real_average rows = sorted_wrt spec_before rows"

section \<open>Facts about the string functions\<close>

lemma strings_Split_not_Nil: "strings_Split s sep \<noteq> []"
  by (subst strings_Split.simps) (simp split: list.split)

lemma fold_upd_apply:
  "fold (\<lambda>user m. m(g user \<mapsto> v)) us m0 k = (if k \<in> g ` set us then Some v else m0 k)"
  by (induction us arbitrary: m0) auto

lemma process_line_apply:
  "process_line line m user =
     (if scoreRegex_FindString line \<noteq> [] \<and> user \<in> cleanUsername ` set (userRegex_FindAllString line)
      then Some (line_score (scoreRegex_FindString line)) else m user)"
  by (simp add: process_line_def Let_def fold_upd_apply)

lemma strings_Split_Nil: "strings_Split [] sep = [[]]"
  by (subst strings_Split.simps) simp

lemma strings_Split_Cons:
  "strings_Split (c # s) sep =
     (if c = sep then [] # strings_Split s sep
      else (c # hd (strings_Split s sep)) # tl (strings_Split s sep))"
proof (cases "c = sep")
  case True
  then show ?thesis
    by (subst strings_Split.simps) simp
next
  case False
  then have dw: "dropWhile (\<lambda>c. c \<noteq> sep) (c # s) = dropWhile (\<lambda>c. c \<noteq> sep) s"
    and tw: "takeWhile (\<lambda>c. c \<noteq> sep) (c # s) = c # takeWhile (\<lambda>c. c \<noteq> sep) s"
    by simp_all
  have whole: "strings_Split (c # s) sep =
      (case dropWhile (\<lambda>c. c \<noteq> sep) s of
         [] \<Rightarrow> [c # s]
       | _ # rest \<Rightarrow> (c # takeWhile (\<lambda>c. c \<noteq> sep) s) # strings_Split rest sep)"
    by (subst strings_Split.simps) (simp only: dw tw)
  have rest: "strings_Split s sep =
      (case dropWhile (\<lambda>c. c \<noteq> sep) s of
         [] \<Rightarrow> [s]
       | _ # rest \<Rightarrow> takeWhile (\<lambda>c. c \<noteq> sep) s # strings_Split rest sep)"
    by (subst strings_Split.simps) (rule refl)
  show ?thesis
  proof (cases "dropWhile (\<lambda>c. c \<noteq> sep) s")
    case Nil
    with whole rest False show ?thesis
      by simp
  next
    case (Cons x xs)
    with whole rest False show ?thesis
      by simp
  qed
qed

lemma strings_Split_append_line:
  "sep \<notin> set l \<Longrightarrow> strings_Split (s @ sep # l) sep = strings_Split s sep @ [l]"
proof (induction s)
  case Nil
  have "strings_Split l sep = [l]"
    using Nil by (induction l) (auto simp: strings_Split_Nil strings_Split_Cons)
  then show ?case
    by (simp add: strings_Split_Nil strings_Split_Cons)
next
  case (Cons c s)
  have ne: "strings_Split s sep \<noteq> []"
    by (rule strings_Split_not_Nil)
  show ?case
    using Cons ne by (simp add: strings_Split_Cons)
qed

lemma parse_dailyUsers_snoc:
  "CHR 0x0A \<notin> set line \<Longrightarrow>
     parse_dailyUsers (message @ CHR 0x0A # line) = process_line line (parse_dailyUsers message)"
  by (simp add: parse_dailyUsers_def strings_Split_append_line)

lemma hd_strings_Split:
  "sep \<notin> set s \<Longrightarrow> hd (strings_Split (s @ sep # r) sep) = s"
  by (induction s) (auto simp: strings_Split_Cons)

lemma is_digit_not_slash: "is_digit c \<Longrightarrow> c \<noteq> CHR ''/''"
  and is_digit_not_X: "is_digit c \<Longrightarrow> c \<noteq> CHR ''X''"
  and is_digit_not_sign: "is_digit c \<Longrightarrow> c \<noteq> CHR ''-'' \<and> c \<noteq> CHR ''+''"
  by (auto simp: is_digit_def)

lemma line_score_digits:
  assumes "ds \<noteq> []" and "list_all is_digit ds"
  shows "line_score (ds @ ''/6'') = strconv_Atoi ds"
proof -
  from assms obtain c cs where ds: "ds = c # cs" and c: "is_digit c"
    by (cases ds) auto
  have "CHR ''/'' \<notin> set ds"
    using assms(2) is_digit_not_slash by (auto simp: list_all_iff)
  then have "hd (strings_Split (ds @ CHR ''/'' # ''6'') CHR ''/'') = ds"
    by (rule hd_strings_Split)
  moreover have "\<not> strings_HasPrefix (ds @ ''/6'') ''X''"
    using c is_digit_not_X by (auto simp: strings_HasPrefix_def ds)
  ultimately show ?thesis
    by (simp add: line_score_def)
qed

lemma line_score_X: "line_score ''X/6'' = 7"
  by (simp add: line_score_def strings_HasPrefix_def)

lemma decimal_nonneg_aux:
  "list_all is_digit ds \<Longrightarrow> 0 \<le> n \<Longrightarrow> 0 \<le> foldl (\<lambda>n c. 10 * n + (of_char c - 48)) (n::int) ds"
proof (induction ds arbitrary: n)
  case Nil
  then show ?case by simp
next
  case (Cons c ds)
  from Cons.prems have "is_digit c"
    by simp
  then have "(48::int) \<le> of_char c"
    by (auto simp: is_digit_def)
  with Cons.prems have "0 \<le> 10 * n + (of_char c - 48)"
    by simp
  with Cons show ?case
    by simp
qed

lemma decimal_nonneg: "list_all is_digit ds \<Longrightarrow> 0 \<le> decimal ds"
  by (simp add: decimal_def decimal_nonneg_aux)

lemma strconv_Atoi_digits:
  assumes "ds \<noteq> []" and "list_all is_digit ds"
  shows "strconv_Atoi ds = (if 2 ^ 63 \<le> decimal ds then 2 ^ 63 - 1 else of_int (decimal ds))"
proof -
  from assms obtain c cs where ds: "ds = c # cs" and c: "is_digit c"
    by (cases ds) auto
  have "parse_uint ds = Some (decimal ds)"
    using assms by (simp add: parse_uint_def)
  with c is_digit_not_sign [of c] show ?thesis
    by (simp add: strconv_Atoi_def ds)
qed

lemma sint_strconv_Atoi_digits:
  assumes "ds \<noteq> []" and "list_all is_digit ds"
  shows "sint (strconv_Atoi ds) = min (decimal ds) (2 ^ 63 - 1)"
proof (cases "2 ^ 63 \<le> decimal ds")
  case True
  have "sint (2 ^ 63 - 1 :: go_int) = 2 ^ 63 - 1"
    by simp
  with True show ?thesis
    by (simp add: strconv_Atoi_digits [OF assms])
next
  case False
  have "0 \<le> decimal ds"
    using assms(2) by (rule decimal_nonneg)
  with False have "signed_take_bit 63 (decimal ds) = decimal ds"
    by (intro signed_take_bit_int_eq_self) auto
  then have "sint (of_int (decimal ds) :: go_int) = decimal ds"
    by (simp add: signed_of_int)
  with False show ?thesis
    by (simp add: strconv_Atoi_digits [OF assms])
qed

lemma scoreRegex_match_at_cases:
  "scoreRegex_match_at s = [] \<or> scoreRegex_match_at s = ''X/6'' \<or>
   (\<exists>ds. ds \<noteq> [] \<and> list_all is_digit ds \<and> scoreRegex_match_at s = ds @ ''/6'')"
proof -
  have "list_all is_digit (takeWhile is_digit s)"
    by (simp add: list_all_iff) (meson set_takeWhileD)
  then show ?thesis
    by (auto simp: scoreRegex_match_at_def Let_def)
qed

lemma scoreRegex_FindString_cases:
  "scoreRegex_FindString s = [] \<or> scoreRegex_FindString s = ''X/6'' \<or>
   (\<exists>ds. ds \<noteq> [] \<and> list_all is_digit ds \<and> scoreRegex_FindString s = ds @ ''/6'')"
proof (induction s)
  case Nil
  then show ?case
    by (simp add: scoreRegex_FindString.simps)
next
  case (Cons c cs)
  show ?case
  proof (cases "scoreRegex_match_at (c # cs) = []")
    case True
    with Cons show ?thesis
      by (simp add: scoreRegex_FindString.simps)
  next
    case False
    then have "scoreRegex_FindString (c # cs) = scoreRegex_match_at (c # cs)"
      by (simp add: scoreRegex_FindString.simps)
    with scoreRegex_match_at_cases [of "c # cs"] show ?thesis
      by simp
  qed
qed

text \<open>Where an entry of the map built from some lines comes from.\<close>

lemma fold_process_line_Some:
  "fold process_line ls m user = Some score \<Longrightarrow>
     m user = Some score \<or>
     (\<exists>line\<in>set ls. scoreRegex_FindString line \<noteq> [] \<and>
        user \<in> cleanUsername ` set (userRegex_FindAllString line) \<and>
        score = line_score (scoreRegex_FindString line))"
proof (induction ls arbitrary: m)
  case Nil
  then show ?case by simp
next
  case (Cons l ls)
  from Cons.prems have "fold process_line ls (process_line l m) user = Some score"
    by simp
  from Cons.IH [OF this] show ?case
    by (auto simp: process_line_apply split: if_splits)
qed

lemma line_score_sound:
  assumes "scoreRegex_FindString line \<noteq> []"
  shows "scoreRegex_FindString line = ''X/6'' \<and> line_score (scoreRegex_FindString line) = 7 \<or>
     (\<exists>ds. ds \<noteq> [] \<and> list_all is_digit ds \<and> scoreRegex_FindString line = ds @ ''/6'' \<and>
        sint (line_score (scoreRegex_FindString line)) = min (decimal ds) (2 ^ 63 - 1))"
  using scoreRegex_FindString_cases [of line] assms
  by (auto simp: line_score_X line_score_digits sint_strconv_Atoi_digits)

lemma line_score_nonneg:
  assumes "scoreRegex_FindString line \<noteq> []"
  shows "0 \<le> sint (line_score (scoreRegex_FindString line))"
proof -
  from line_score_sound [OF assms] show ?thesis
  proof (elim disjE exE conjE)
    assume "line_score (scoreRegex_FindString line) = 7"
    then show ?thesis by simp
  next
    fix ds
    assume "list_all is_digit ds"
      and "sint (line_score (scoreRegex_FindString line)) = min (decimal ds) (2 ^ 63 - 1)"
    with decimal_nonneg [of ds] show ?thesis by simp
  qed
qed

lemma strings_Split_one_line: "sep \<notin> set s \<Longrightarrow> strings_Split s sep = [s]"
  by (induction s) (auto simp: strings_Split_Nil strings_Split_Cons)

lemma process_line_eval:
  assumes "scoreRegex_FindString line = scoreMatch" and "scoreMatch \<noteq> []"
    and "map cleanUsername (userRegex_FindAllString line) = users"
    and "line_score scoreMatch = score"
  shows "process_line line m = fold (\<lambda>user m. m(user \<mapsto> score)) users m"
proof -
  have "fold (\<lambda>user m. m(cleanUsername user \<mapsto> score)) us m =
      fold (\<lambda>user m. m(user \<mapsto> score)) (map cleanUsername us) m" for us
    by (simp add: fold_map comp_def)
  with assms show ?thesis
    by (simp add: process_line_def)
qed

lemma line_1_alice: "process_line ''1/6 @alice'' m = m(''alice'' \<mapsto> 1)"
proof -
  have "scoreRegex_FindString ''1/6 @alice'' = ''1/6''"
    and "map cleanUsername (userRegex_FindAllString ''1/6 @alice'') = [''alice'']"
    and "line_score ''1/6'' = 1"
    by code_simp+
  from process_line_eval [OF this(1) _ this(2,3)] show ?thesis
    by simp
qed


lemma line_3_alice: "process_line ''3/6 @alice'' m = m(''alice'' \<mapsto> 3)"
proof -
  have "scoreRegex_FindString ''3/6 @alice'' = ''3/6''"
    and "map cleanUsername (userRegex_FindAllString ''3/6 @alice'') = [''alice'']"
    and "line_score ''3/6'' = 3"
    by code_simp+
  from process_line_eval [OF this(1) _ this(2,3)] show ?thesis
    by simp
qed

lemma line_0_alice: "process_line ''0/6 @alice'' m = m(''alice'' \<mapsto> 0)"
proof -
  have "scoreRegex_FindString ''0/6 @alice'' = ''0/6''"
    and "map cleanUsername (userRegex_FindAllString ''0/6 @alice'') = [''alice'']"
    and "line_score ''0/6'' = 0"
    by code_simp+
  from process_line_eval [OF this(1) _ this(2,3)] show ?thesis
    by simp
qed

lemma line_12_alice: "process_line ''12/6 @alice'' m = m(''alice'' \<mapsto> 12)"
proof -
  have "scoreRegex_FindString ''12/6 @alice'' = ''12/6''"
    and "map cleanUsername (userRegex_FindAllString ''12/6 @alice'') = [''alice'']"
    and "line_score ''12/6'' = 12"
    by code_simp+
  from process_line_eval [OF this(1) _ this(2,3)] show ?thesis
    by simp
qed

lemma line_1_brackets: "process_line ''1/6 @<>'' m = m([] \<mapsto> 1)"
proof -
  have "scoreRegex_FindString ''1/6 @<>'' = ''1/6''"
    and "map cleanUsername (userRegex_FindAllString ''1/6 @<>'') = [[]]"
    and "line_score ''1/6'' = 1"
    by code_simp+
  from process_line_eval [OF this(1) _ this(2,3)] show ?thesis
    by simp
qed

lemma line_1_ats: "process_line ''1/6 @@'' m = m([] \<mapsto> 1)"
proof -
  have "scoreRegex_FindString ''1/6 @@'' = ''1/6''"
    and "map cleanUsername (userRegex_FindAllString ''1/6 @@'') = [[]]"
    and "line_score ''1/6'' = 1"
    by code_simp+
  from process_line_eval [OF this(1) _ this(2,3)] show ?thesis
    by simp
qed

lemma parse_one_line:
  "CHR 0x0A \<notin> set line \<Longrightarrow> parse_dailyUsers line = process_line line Map.empty"
  by (simp add: parse_dailyUsers_def strings_Split_one_line)

section \<open>The matchers and their expressions\<close>

lemma scoreRegex_match_at_sound:
  assumes "scoreRegex_match_at s \<noteq> []"
  shows "scoreRegex_language (scoreRegex_match_at s) \<and> (\<exists>post. s = scoreRegex_match_at s @ post)"
proof (cases "takeWhile is_digit s \<noteq> [] \<and> take 2 (dropWhile is_digit s) = ''/6''")
  case True
  then have m: "scoreRegex_match_at s = takeWhile is_digit s @ ''/6''"
    by (simp add: scoreRegex_match_at_def)
  have digits: "list_all is_digit (takeWhile is_digit s)"
    by (simp add: list_all_iff) (meson set_takeWhileD)
  have "s = takeWhile is_digit s @ take 2 (dropWhile is_digit s) @ drop 2 (dropWhile is_digit s)"
    by simp
  with True have "s = scoreRegex_match_at s @ drop 2 (dropWhile is_digit s)"
    by (simp add: m)
  with True digits m show ?thesis
    unfolding scoreRegex_language_def by blast
next
  case False
  with assms have m: "scoreRegex_match_at s = ''X/6''" and t: "take 3 s = ''X/6''"
    by (auto simp: scoreRegex_match_at_def Let_def split: if_splits)
  have "s = take 3 s @ drop 3 s"
    by simp
  with t have "s = ''X/6'' @ drop 3 s"
    by simp
  with m show ?thesis
    unfolding scoreRegex_language_def by (metis)
qed

lemma scoreRegex_match_at_complete:
  assumes "scoreRegex_language m"
  shows "scoreRegex_match_at (m @ post) = m"
  using assms unfolding scoreRegex_language_def
proof (elim disjE exE conjE)
  assume "m = ''X/6''"
  then show ?thesis
    by (simp add: scoreRegex_match_at_def is_digit_def)
next
  fix ds
  assume ds: "ds \<noteq> []" "list_all is_digit ds" and m: "m = ds @ ''/6''"
  have nd: "\<not> is_digit CHR ''/''"
    by (simp add: is_digit_def)
  from ds(2) have all: "\<forall>c\<in>set ds. is_digit c"
    by (simp add: list_all_iff)
  have tw: "takeWhile is_digit (ds @ CHR ''/'' # CHR ''6'' # post) = ds"
    using all nd by (simp add: takeWhile_append2)
  have dw: "dropWhile is_digit (ds @ CHR ''/'' # CHR ''6'' # post) = CHR ''/'' # CHR ''6'' # post"
    using all nd by (simp add: dropWhile_append2)
  show ?thesis
    using ds(1) by (simp add: scoreRegex_match_at_def m tw dw)
qed

text \<open>
  \<open>FindString\<close> returns a match of the expression at the leftmost start that has one
  (no start has two), and the empty string when no part of the line matches.
\<close>

lemma scoreRegex_FindString_leftmost:
  "if scoreRegex_FindString line = []
   then \<not> (\<exists>pre m post. line = pre @ m @ post \<and> scoreRegex_language m)
   else \<exists>pre post. line = pre @ scoreRegex_FindString line @ post \<and>
          scoreRegex_language (scoreRegex_FindString line) \<and>
          (\<forall>pre' m post'. line = pre' @ m @ post' \<and> scoreRegex_language m \<longrightarrow>
             length pre < length pre' \<or> pre' = pre \<and> m = scoreRegex_FindString line)"
proof (induction line)
  case Nil
  have "\<not> scoreRegex_language []"
    by (simp add: scoreRegex_language_def)
  then show ?case
    by (simp add: scoreRegex_FindString.simps)
next
  case (Cons c cs)
  show ?case
  proof (cases "scoreRegex_match_at (c # cs) = []")
    case False
    then have found: "scoreRegex_FindString (c # cs) = scoreRegex_match_at (c # cs)"
      by (simp add: scoreRegex_FindString.simps)
    from scoreRegex_match_at_sound [OF False] obtain post
      where lang: "scoreRegex_language (scoreRegex_match_at (c # cs))"
        and post: "c # cs = scoreRegex_match_at (c # cs) @ post"
      by blast
    have "length [] < length pre' \<or> pre' = [] \<and> m = scoreRegex_match_at (c # cs)"
      if "c # cs = pre' @ m @ post'" and "scoreRegex_language m" for pre' m post'
    proof (cases pre')
      case Nil
      with that scoreRegex_match_at_complete [of m post'] show ?thesis
        by simp
    next
      case (Cons a as)
      then show ?thesis by simp
    qed
    with lang post False found show ?thesis
      by (metis append_Nil)
  next
    case True
    then have rec: "scoreRegex_FindString (c # cs) = scoreRegex_FindString cs"
      by (simp add: scoreRegex_FindString.simps)
    have no_start: "pre' \<noteq> []" if "c # cs = pre' @ m @ post'" and "scoreRegex_language m"
      for pre' m post'
    proof
      assume "pre' = []"
      with that scoreRegex_match_at_complete [of m post'] True have "m = []"
        by simp
      with that(2) show False
        by (simp add: scoreRegex_language_def)
    qed
    have shift: "\<exists>pre''. pre' = c # pre'' \<and> cs = pre'' @ m @ post'"
      if "c # cs = pre' @ m @ post'" and "scoreRegex_language m" for pre' m post'
      using no_start [OF that] that(1) by (cases pre') auto
    show ?thesis
    proof (cases "scoreRegex_FindString cs = []")
      case True
      with Cons.IH have "\<not> (\<exists>pre m post. cs = pre @ m @ post \<and> scoreRegex_language m)"
        by simp
      with shift have "\<not> (\<exists>pre m post. c # cs = pre @ m @ post \<and> scoreRegex_language m)"
        by blast
      with True rec show ?thesis
        by simp
    next
      case False
      with Cons.IH obtain pre post
        where dec: "cs = pre @ scoreRegex_FindString cs @ post"
          and lang: "scoreRegex_language (scoreRegex_FindString cs)"
          and left: "\<And>pre' m post'. cs = pre' @ m @ post' \<Longrightarrow> scoreRegex_language m \<Longrightarrow>
             length pre < length pre' \<or> pre' = pre \<and> m = scoreRegex_FindString cs"
        by auto
      have "length (c # pre) < length pre' \<or> pre' = c # pre \<and> m = scoreRegex_FindString cs"
        if "c # cs = pre' @ m @ post'" and "scoreRegex_language m" for pre' m post'
      proof -
        from shift [OF that] obtain pre'' where p: "pre' = c # pre''" "cs = pre'' @ m @ post'"
          by blast
        from left [OF p(2) that(2)] p(1) show ?thesis
          by auto
      qed
      moreover have "c # cs = (c # pre) @ scoreRegex_FindString cs @ post"
        using dec by simp
      ultimately show ?thesis
        using False lang rec by (metis (no_types, lifting))
    qed
  qed
qed

lemma userRegex_FindAllString_shape:
  "m \<in> set (userRegex_FindAllString line) \<Longrightarrow>
     \<exists>run. m = CHR ''@'' # run \<and> run \<noteq> [] \<and> list_all non_space run"
proof (induction line rule: userRegex_FindAllString.induct)
  case 1
  then show ?case
    by (simp add: userRegex_FindAllString.simps)
next
  case (2 c cs)
  have "list_all non_space (takeWhile non_space cs)"
    by (simp add: list_all_iff) (meson set_takeWhileD)
  with 2 show ?case
    by (auto simp: userRegex_FindAllString.simps split: if_splits)
qed

section \<open>Claims about the parsing of a message\<close>

text \<open>
  C3, as the specification states it: every score of the map built from a message is an
  integer from 1 to 6, or 7. It fails: the digits before \<open>/6\<close> are not checked against
  any range, so the messages \<open>0/6 @alice\<close> and \<open>12/6 @alice\<close> give alice the scores 0
  and 12.
\<close>

theorem C3_range_counterexample:
  "parse_dailyUsers ''0/6 @alice'' = [''alice'' \<mapsto> 0] \<and> \<not> valid_RawScore 0 \<and>
   parse_dailyUsers ''12/6 @alice'' = [''alice'' \<mapsto> 12] \<and> \<not> valid_RawScore 12"
  by (simp add: parse_one_line line_0_alice line_12_alice valid_RawScore_def word_sle_eq)

text \<open>
  C3, amended: every score of the map built from a message is the score of a line of the
  message that mentions the user. It is 7 when the score token of the line is \<open>X/6\<close>;
  otherwise the token is a run of digits before \<open>/6\<close> and the score is the decimal value
  of the run, capped at \<open>2^63 - 1\<close>. So it is never negative, but it is not confined to
  the range from 1 to 6.
\<close>

theorem C3_raw_scores:
  assumes "parse_dailyUsers message user = Some score"
  shows "0 \<le> sint score \<and>
     (\<exists>line\<in>set (strings_Split message CHR 0x0A).
        user \<in> cleanUsername ` set (userRegex_FindAllString line) \<and>
        (scoreRegex_FindString line = ''X/6'' \<and> score = 7 \<or>
         (\<exists>ds. ds \<noteq> [] \<and> list_all is_digit ds \<and>
            scoreRegex_FindString line = ds @ ''/6'' \<and>
            sint score = min (decimal ds) (2 ^ 63 - 1))))"
proof -
  from assms fold_process_line_Some [of "strings_Split message CHR 0x0A" Map.empty user score]
  obtain line where line: "line \<in> set (strings_Split message CHR 0x0A)"
    and found: "scoreRegex_FindString line \<noteq> []"
    and user: "user \<in> cleanUsername ` set (userRegex_FindAllString line)"
    and score: "score = line_score (scoreRegex_FindString line)"
    by (auto simp: parse_dailyUsers_def)
  from line_score_nonneg [OF found] score have "0 \<le> sint score"
    by simp
  moreover from line_score_sound [OF found] score
  have "scoreRegex_FindString line = ''X/6'' \<and> score = 7 \<or>
     (\<exists>ds. ds \<noteq> [] \<and> list_all is_digit ds \<and> scoreRegex_FindString line = ds @ ''/6'' \<and>
        sint score = min (decimal ds) (2 ^ 63 - 1))"
    by simp
  ultimately show ?thesis
    using line user by blast
qed

theorem C3_raw_scores_witness:
  "parse_dailyUsers ''12/6 @alice'' ''alice'' = Some 12 \<and>
   0 \<le> sint (12 :: go_int) \<and>
   (\<exists>line\<in>set (strings_Split ''12/6 @alice'' CHR 0x0A).
      ''alice'' \<in> cleanUsername ` set (userRegex_FindAllString line) \<and>
      (scoreRegex_FindString line = ''X/6'' \<and> (12 :: go_int) = 7 \<or>
       (\<exists>ds. ds \<noteq> [] \<and> list_all is_digit ds \<and>
          scoreRegex_FindString line = ds @ ''/6'' \<and>
          sint (12 :: go_int) = min (decimal ds) (2 ^ 63 - 1))))"
proof -
  have parsed: "parse_dailyUsers ''12/6 @alice'' ''alice'' = Some 12"
    by (simp add: parse_one_line line_12_alice)
  from C3_raw_scores [OF parsed] parsed show ?thesis
    by blast
qed

lemma fold_process_line_last:
  "fold process_line ls m user =
     (case filter (\<lambda>line. scoreRegex_FindString line \<noteq> [] \<and>
                     user \<in> cleanUsername ` set (userRegex_FindAllString line)) (rev ls) of
        [] \<Rightarrow> m user
      | line # _ \<Rightarrow> Some (line_score (scoreRegex_FindString line)))"
proof (induction ls arbitrary: m)
  case Nil
  then show ?case by simp
next
  case (Cons l ls)
  let ?hit = "\<lambda>line. scoreRegex_FindString line \<noteq> [] \<and>
      user \<in> cleanUsername ` set (userRegex_FindAllString line)"
  have "fold process_line (l # ls) m user = fold process_line ls (process_line l m) user"
    by simp
  also have "\<dots> =
      (case filter ?hit (rev ls) of
         [] \<Rightarrow> process_line l m user
       | line # _ \<Rightarrow> Some (line_score (scoreRegex_FindString line)))"
    by (rule Cons.IH)
  also have "\<dots> =
      (case filter ?hit (rev (l # ls)) of
         [] \<Rightarrow> m user
       | line # _ \<Rightarrow> Some (line_score (scoreRegex_FindString line)))"
    by (simp add: process_line_apply split: list.split)
  finally show ?case .
qed

text \<open>
  C6: the last line wins. The score of a user in the map built from a message is the
  score of the last line of the message that has a score token and mentions the user
  (as a cleaned username), whatever the lines before it gave; a user whom no such line
  mentions has no entry. In particular the message \<open>1/6 @alice\<close>, \<open>3/6 @alice\<close>
  gives alice the score 3 and nothing else.
\<close>

theorem C6_last_line_wins:
  "(\<forall>message user.
      parse_dailyUsers message user =
        (case filter (\<lambda>line. scoreRegex_FindString line \<noteq> [] \<and>
                        user \<in> cleanUsername ` set (userRegex_FindAllString line))
                (rev (strings_Split message CHR 0x0A)) of
           [] \<Rightarrow> None
         | line # _ \<Rightarrow> Some (line_score (scoreRegex_FindString line)))) \<and>
   parse_dailyUsers ''1/6 @alice\<newline>3/6 @alice'' = [''alice'' \<mapsto> 3]"
proof (intro conjI allI)
  fix message user
  show "parse_dailyUsers message user =
      (case filter (\<lambda>line. scoreRegex_FindString line \<noteq> [] \<and>
                      user \<in> cleanUsername ` set (userRegex_FindAllString line))
              (rev (strings_Split message CHR 0x0A)) of
         [] \<Rightarrow> None
       | line # _ \<Rightarrow> Some (line_score (scoreRegex_FindString line)))"
    unfolding parse_dailyUsers_def by (subst fold_process_line_last) simp
next
  show "parse_dailyUsers ''1/6 @alice\<newline>3/6 @alice'' = [''alice'' \<mapsto> 3]"
    using parse_dailyUsers_snoc [of "''3/6 @alice''" "''1/6 @alice''"]
    by (simp add: parse_one_line line_1_alice line_3_alice)
qed

theorem C6_last_line_wins_witness:
  "parse_dailyUsers ''1/6 @alice\<newline>3/6 @alice'' ''alice'' = Some 3 \<and>
   strings_Split ''1/6 @alice\<newline>3/6 @alice'' CHR 0x0A = [''1/6 @alice'', ''3/6 @alice''] \<and>
   line_score (scoreRegex_FindString ''3/6 @alice'') = 3"
proof -
  have lines: "strings_Split ''1/6 @alice\<newline>3/6 @alice'' CHR 0x0A = [''1/6 @alice'', ''3/6 @alice'']"
    by code_simp
  have found: "scoreRegex_FindString ''3/6 @alice'' = ''3/6''"
    and users: "map cleanUsername (userRegex_FindAllString ''3/6 @alice'') = [''alice'']"
    and score: "line_score ''3/6'' = 3"
    by code_simp+
  from users have hit: "''alice'' \<in> cleanUsername ` set (userRegex_FindAllString ''3/6 @alice'')"
    by (simp flip: set_map)
  from C6_last_line_wins [THEN conjunct1, rule_format, of "''1/6 @alice\<newline>3/6 @alice''" "''alice''"]
  have "parse_dailyUsers ''1/6 @alice\<newline>3/6 @alice'' ''alice'' = Some 3"
    by (simp add: lines found hit score)
  with lines found score show ?thesis
    by simp
qed



section \<open>Facts about the table\<close>

lemma select_row_None_iff: "select_row rows u = None \<longleftrightarrow> u \<notin> fst ` set rows"
  by (simp add: select_row_def map_of_eq_None_iff)

lemma select_row_INSERT:
  "select_row (run_statement (INSERT u s d) rows) u' =
     (if u' = u \<and> select_row rows u = None then Some (s, d) else select_row rows u')"
proof -
  have "map_of (rows @ [(u, s, d)]) u' =
      (case map_of rows u' of None \<Rightarrow> if u' = u then Some (s, d) else None | Some r \<Rightarrow> Some r)"
    by (simp add: map_of_append map_add_def split: option.split)
  then show ?thesis
    using select_row_None_iff [of rows u]
    by (auto simp: select_row_def run_statement.simps split: option.splits)
qed

lemma select_row_UPDATE:
  "select_row (run_statement (UPDATE u s d) rows) u' =
     (if u' = u \<and> select_row rows u \<noteq> None then Some (s, d) else select_row rows u')"
  by (induction rows) (auto simp: select_row_def run_statement.simps)

lemma statement_user_score_statement [simp]:
  "statement_user (score_statement u old s inc) = u"
  by (simp add: score_statement_def split: option.split)

lemma select_row_score_statement:
  "select_row (run_statement (score_statement u (select_row rows u) s inc) rows) u' =
     (if u' = u then Some (scored_row (select_row rows u) s inc) else select_row rows u')"
  by (cases "select_row rows u")
    (auto simp: score_statement_def scored_row_def select_row_INSERT select_row_UPDATE)

lemma updateCumulativeScore_alt:
  "updateCumulativeScore f u s inc db =
     (if row_query_fails f u then db
      else db_Exec f (score_statement u (select_row (leaderboard db) u) s inc) db)"
  by (simp add: updateCumulativeScore_def score_statement_def split: option.split)

lemma select_row_updateCumulativeScore:
  "select_row (leaderboard (updateCumulativeScore f u s inc db)) u' =
     (if u' = u \<and> \<not> row_query_fails f u \<and> \<not> exec_fails f u
      then Some (scored_row (select_row (leaderboard db) u) s inc)
      else select_row (leaderboard db) u')"
  by (simp add: updateCumulativeScore_alt db_Exec_def select_row_score_statement)

lemma exec_log_updateCumulativeScore:
  "exec_log (updateCumulativeScore f u s inc db) =
     exec_log db @
     (if row_query_fails f u then []
      else [score_statement u (select_row (leaderboard db) u) s inc])"
  by (simp add: updateCumulativeScore_alt db_Exec_def)

lemma fst_set_updateCumulativeScore:
  "fst ` set (leaderboard db) \<subseteq> fst ` set (leaderboard (updateCumulativeScore f u s inc db))"
proof -
  have "select_row (leaderboard (updateCumulativeScore f u s inc db)) u' \<noteq> None"
    if "select_row (leaderboard db) u' \<noteq> None" for u'
    using that by (simp add: select_row_updateCumulativeScore)
  then show ?thesis
    unfolding select_row_None_iff by blast
qed

section \<open>Loops whose steps each touch the row of one user\<close>

lemma fold_rows_frame:
  fixes step :: "string \<Rightarrow> database \<Rightarrow> database"
  assumes frame: "\<And>k k' db. k' \<noteq> k \<Longrightarrow>
      select_row (leaderboard (step k db)) k' = select_row (leaderboard db) k'"
    and "u \<notin> set ks"
  shows "select_row (leaderboard (fold step ks db)) u = select_row (leaderboard db) u"
  using assms(2)
proof (induction ks arbitrary: db)
  case Nil
  then show ?case by simp
next
  case (Cons k ks)
  then have "u \<noteq> k" and "u \<notin> set ks"
    by auto
  with Cons.IH [of "step k db"] frame [of u k db] show ?case
    by simp
qed

lemma fold_rows_own:
  fixes step :: "string \<Rightarrow> database \<Rightarrow> database"
  assumes frame: "\<And>k k' db. k' \<noteq> k \<Longrightarrow>
      select_row (leaderboard (step k db)) k' = select_row (leaderboard db) k'"
    and own: "\<And>db. select_row (leaderboard (step u db)) u = F (select_row (leaderboard db) u)"
    and "distinct ks" and "u \<in> set ks"
  shows "select_row (leaderboard (fold step ks db)) u = F (select_row (leaderboard db) u)"
  using assms(3,4)
proof (induction ks arbitrary: db)
  case Nil
  then show ?case by simp
next
  case (Cons k ks)
  show ?case
  proof (cases "u = k")
    case True
    with Cons.prems have "u \<notin> set ks"
      by simp
    from fold_rows_frame [of step u ks, OF frame this] True own [of db] show ?thesis
      by simp
  next
    case False
    with Cons.prems have "distinct ks" and "u \<in> set ks"
      by auto
    from Cons.IH [OF this, of "step k db"] frame [OF False, of db] show ?thesis
      by simp
  qed
qed

lemma fold_rows_log:
  fixes step :: "string \<Rightarrow> database \<Rightarrow> database"
  assumes frame: "\<And>k k' db. k' \<noteq> k \<Longrightarrow>
      select_row (leaderboard (step k db)) k' = select_row (leaderboard db) k'"
    and log: "\<And>k db. exec_log (step k db) = exec_log db @ G k (select_row (leaderboard db) k)"
    and "distinct ks"
  shows "exec_log (fold step ks db) =
      exec_log db @ concat (map (\<lambda>k. G k (select_row (leaderboard db) k)) ks)"
  using assms(3)
proof (induction ks arbitrary: db)
  case Nil
  then show ?case by simp
next
  case (Cons k ks)
  then have "distinct ks" and notin: "\<forall>k'\<in>set ks. k' \<noteq> k"
    by auto
  have "map (\<lambda>k'. G k' (select_row (leaderboard (step k db)) k')) ks =
      map (\<lambda>k'. G k' (select_row (leaderboard db) k')) ks"
    using notin frame by simp
  with Cons.IH [OF \<open>distinct ks\<close>, of "step k db"] log [of k db] show ?case
    by simp
qed

section \<open>The two loops of updateScoresBasedOnResults\<close>

lemma fst_fold_score_user:
  "fst (fold (score_user f daily) ks st) =
     fold (\<lambda>u db. case daily u of None \<Rightarrow> db
                    | Some s \<Rightarrow> updateCumulativeScore f u s True db) ks (fst st)"
  by (induction ks arbitrary: st) (auto simp: score_user_def split: option.split)

lemma snd_fold_score_user:
  "snd (fold (score_user f daily) ks st) u =
     (if u \<in> set ks \<and> daily u \<noteq> None then Some False else snd st u)"
  by (induction ks arbitrary: st) (auto simp: score_user_def split: option.split)

lemma scan_dbUsers_apply:
  "scan_dbUsers f rows u =
     (if \<exists>r\<in>set rows. fst r = u \<and> \<not> users_scan_fails f u then Some True else None)"
proof -
  have "fold (\<lambda>(username, _, _) dbUsers.
             if users_scan_fails f username then dbUsers else dbUsers(username \<mapsto> True))
       rows m u =
     (if \<exists>r\<in>set rows. fst r = u \<and> \<not> users_scan_fails f u then Some True else m u)" for m
    by (induction rows arbitrary: m) (auto split: prod.splits)
  then show ?thesis
    by (simp add: scan_dbUsers_def)
qed

lemma marked_users:
  "snd (score_dailyUsers f ks daily db) u =
     (if u \<in> set ks \<and> daily u \<noteq> None then Some False
      else if select_row (leaderboard db) u \<noteq> None \<and> \<not> users_scan_fails f u then Some True
      else None)"
proof -
  have "(\<exists>r\<in>set (leaderboard db). fst r = u) \<longleftrightarrow> select_row (leaderboard db) u \<noteq> None"
    by (auto simp: select_row_None_iff)
  then show ?thesis
    by (auto simp: score_dailyUsers_def snd_fold_score_user scan_dbUsers_apply)
qed

text \<open>The row of a user after the loop over \<open>dailyUsers\<close>.\<close>

lemma select_row_score_dailyUsers:
  assumes "distinct ks"
  shows "select_row (leaderboard (fst (score_dailyUsers f ks daily db))) u =
     (case daily u of
        None \<Rightarrow> select_row (leaderboard db) u
      | Some s \<Rightarrow>
          if u \<in> set ks \<and> \<not> row_query_fails f u \<and> \<not> exec_fails f u
          then Some (scored_row (select_row (leaderboard db) u) s True)
          else select_row (leaderboard db) u)"
proof -
  let ?step = "\<lambda>u db. case daily u of None \<Rightarrow> db
                    | Some s \<Rightarrow> updateCumulativeScore f u s True db"
  have frame: "select_row (leaderboard (?step k db)) k' = select_row (leaderboard db) k'"
    if "k' \<noteq> k" for k k' db
    using that by (simp add: select_row_updateCumulativeScore split: option.split)
  have own: "select_row (leaderboard (?step u db)) u =
      (case daily u of
         None \<Rightarrow> select_row (leaderboard db) u
       | Some s \<Rightarrow>
           if \<not> row_query_fails f u \<and> \<not> exec_fails f u
           then Some (scored_row (select_row (leaderboard db) u) s True)
           else select_row (leaderboard db) u)" for db
    by (simp add: select_row_updateCumulativeScore split: option.split)
  show ?thesis
  proof (cases "u \<in> set ks")
    case True
    from fold_rows_own [of ?step u _ ks db, OF frame own assms True] show ?thesis
      using True by (simp add: score_dailyUsers_def fst_fold_score_user split: option.split)
  next
    case False
    from fold_rows_frame [of ?step u ks db, OF frame False] show ?thesis
      using False by (simp add: score_dailyUsers_def fst_fold_score_user split: option.split)
  qed
qed

text \<open>The row of a user after the loop over \<open>dbUsers\<close>.\<close>

lemma select_row_penalise_user:
  "select_row (leaderboard (penalise_user f m k db)) u =
     (if u = k \<and> m k = Some True \<and> k \<noteq> excluded_user \<and>
         \<not> row_query_fails f k \<and> \<not> exec_fails f k
      then Some (scored_row (select_row (leaderboard db) k) 7 False)
      else select_row (leaderboard db) u)"
  by (simp add: penalise_user_def select_row_updateCumulativeScore)

lemma select_row_fold_penalise_user:
  assumes "distinct ks"
  shows "select_row (leaderboard (fold (penalise_user f m) ks db)) u =
     (if u \<in> set ks \<and> m u = Some True \<and> u \<noteq> excluded_user \<and>
         \<not> row_query_fails f u \<and> \<not> exec_fails f u
      then Some (scored_row (select_row (leaderboard db) u) 7 False)
      else select_row (leaderboard db) u)"
proof (cases "u \<in> set ks")
  case True
  have frame: "select_row (leaderboard (penalise_user f m k db)) k' = select_row (leaderboard db) k'"
    if "k' \<noteq> k" for k k' db
    using that by (simp add: select_row_penalise_user)
  have own: "select_row (leaderboard (penalise_user f m u db)) u =
      (if m u = Some True \<and> u \<noteq> excluded_user \<and> \<not> row_query_fails f u \<and> \<not> exec_fails f u
       then Some (scored_row (select_row (leaderboard db) u) 7 False)
       else select_row (leaderboard db) u)" for db
    by (simp add: select_row_penalise_user)
  from fold_rows_own [of "penalise_user f m" u _ ks db, OF frame own assms True] True
  show ?thesis
    by simp
next
  case False
  have frame: "select_row (leaderboard (penalise_user f m k db)) k' = select_row (leaderboard db) k'"
    if "k' \<noteq> k" for k k' db
    using that by (simp add: select_row_penalise_user)
  from fold_rows_frame [of "penalise_user f m" u ks db, OF frame False] False
  show ?thesis
    by simp
qed

text \<open>The row of a user after a run, for orders that visit no key twice.\<close>

lemma select_row_updateScoresBasedOnResults:
  assumes "distinct ks1" and "distinct ks2" and "\<not> users_query_fails f"
  shows "select_row (leaderboard (updateScoresBasedOnResults f ks1 ks2 daily db)) u =
     (if \<not> row_query_fails f u \<and> \<not> exec_fails f u then
        (case daily u of
           Some s \<Rightarrow>
             if u \<in> set ks1 then Some (scored_row (select_row (leaderboard db) u) s True)
             else if u \<in> set ks2 \<and> select_row (leaderboard db) u \<noteq> None \<and>
                 \<not> users_scan_fails f u \<and> u \<noteq> excluded_user
             then Some (scored_row (select_row (leaderboard db) u) 7 False)
             else select_row (leaderboard db) u
         | None \<Rightarrow>
             if u \<in> set ks2 \<and> select_row (leaderboard db) u \<noteq> None \<and>
                 \<not> users_scan_fails f u \<and> u \<noteq> excluded_user
             then Some (scored_row (select_row (leaderboard db) u) 7 False)
             else select_row (leaderboard db) u)
      else select_row (leaderboard db) u)"
  using assms(3)
  by (auto simp: updateScoresBasedOnResults_def Let_def select_row_fold_penalise_user [OF assms(2)]
      select_row_score_dailyUsers [OF assms(1)] marked_users split: option.split)

lemma fold_unobserved:
  assumes "\<And>k s. obs (step k s) = obs s"
  shows "obs (fold step ks s) = obs s"
  using assms by (induction ks arbitrary: s) simp_all

lemma range_order_mem: "range_order m ks \<Longrightarrow> k \<in> set ks \<longleftrightarrow> m k \<noteq> None"
  by (auto simp: range_order_def)

lemma select_row_after_run:
  assumes o1: "range_order dailyUsers daily_order"
    and o2: "range_order (snd (score_dailyUsers no_faults daily_order dailyUsers db)) users_order"
  shows "select_row (leaderboard
        (updateScoresBasedOnResults no_faults daily_order users_order dailyUsers db)) player =
     (case dailyUsers player of
        Some score \<Rightarrow> Some (scored_row (select_row (leaderboard db) player) score True)
      | None \<Rightarrow>
          if select_row (leaderboard db) player \<noteq> None \<and> player \<noteq> excluded_user
          then Some (scored_row (select_row (leaderboard db) player) 7 False)
          else select_row (leaderboard db) player)"
proof -
  have d1: "distinct daily_order" and d2: "distinct users_order"
    using o1 o2 by (simp_all add: range_order_def)
  have nf: "\<not> users_query_fails no_faults" "\<not> row_query_fails no_faults player"
    "\<not> exec_fails no_faults player" "\<not> users_scan_fails no_faults player"
    by (simp_all add: no_faults_def)
  have m1: "player \<in> set daily_order \<longleftrightarrow> dailyUsers player \<noteq> None"
    using o1 by (rule range_order_mem)
  have m2: "player \<in> set users_order \<longleftrightarrow>
      snd (score_dailyUsers no_faults daily_order dailyUsers db) player \<noteq> None"
    using o2 by (rule range_order_mem)
  show ?thesis
    using nf m1
    by (auto simp: select_row_updateScoresBasedOnResults [OF d1 d2 nf(1)] m2 marked_users
        split: option.split)
qed

lemma excluded_user_untouched:
  assumes "dailyUsers excluded_user = None"
  shows "select_row (leaderboard
        (updateScoresBasedOnResults f daily_order users_order dailyUsers db)) excluded_user =
      select_row (leaderboard db) excluded_user"
    and "filter (\<lambda>st. statement_user st = excluded_user)
        (exec_log (updateScoresBasedOnResults f daily_order users_order dailyUsers db)) =
      filter (\<lambda>st. statement_user st = excluded_user) (exec_log db)"
proof -
  let ?obs = "\<lambda>db. (select_row (leaderboard db) excluded_user,
      filter (\<lambda>st. statement_user st = excluded_user) (exec_log db))"
  have other: "?obs (updateCumulativeScore f k s inc db) = ?obs db"
    if "k \<noteq> excluded_user" for k s inc db
    using that by (simp add: select_row_updateCumulativeScore exec_log_updateCumulativeScore)
  have "?obs (fst (score_user f dailyUsers k st)) = ?obs (fst st)" for k st
    using assms other [of k] by (cases "k = excluded_user") (auto simp: score_user_def split: option.split)
  then have "(?obs \<circ> fst) (fold (score_user f dailyUsers) ks st) = (?obs \<circ> fst) st" for ks st
    by (intro fold_unobserved) simp
  then have loop1: "?obs (fst (score_dailyUsers f daily_order dailyUsers db)) = ?obs db"
    by (simp add: score_dailyUsers_def)
  have "?obs (penalise_user f m k db) = ?obs db" for m k db
    using other [of k] by (simp add: penalise_user_def)
  then have loop2: "?obs (fold (penalise_user f m) ks db) = ?obs db" for m ks db
    by (intro fold_unobserved)
  have "?obs (updateScoresBasedOnResults f daily_order users_order dailyUsers db) = ?obs db"
    using loop1 loop2 by (simp add: updateScoresBasedOnResults_def Let_def)
  then show "select_row (leaderboard
        (updateScoresBasedOnResults f daily_order users_order dailyUsers db)) excluded_user =
      select_row (leaderboard db) excluded_user"
    and "filter (\<lambda>st. statement_user st = excluded_user)
        (exec_log (updateScoresBasedOnResults f daily_order users_order dailyUsers db)) =
      filter (\<lambda>st. statement_user st = excluded_user) (exec_log db)"
    by simp_all
qed

section \<open>Claims about the scoring\<close>

text \<open>
  C1: with a storage that works, and the two loops visiting their maps in any order, a
  run is a full outer join of the known players and the daily results. A player of the
  daily results with no row gets the row \<open>(score, 1)\<close>, one with the row \<open>(c, d)\<close> gets
  \<open>(c + score, d + 1)\<close>; a known player who is not in the daily results gets
  \<open>(c + 7, d)\<close>, but for the excluded user, whose row stays; and a player neither known
  nor in the daily results gets no row. Here \<open>+\<close> is the addition of Go's \<open>int\<close>.
  From the rows alice \<open>(5, 2)\<close> and bob \<open>(10, 3)\<close> and the daily result alice 1, alice
  gets \<open>(6, 3)\<close> and bob gets \<open>(17, 3)\<close>.
\<close>

theorem C1_full_outer_join:
  "(\<forall>daily_order users_order dailyUsers db player.
      range_order dailyUsers daily_order \<and>
      range_order (snd (score_dailyUsers no_faults daily_order dailyUsers db)) users_order \<longrightarrow>
      select_row (leaderboard
          (updateScoresBasedOnResults no_faults daily_order users_order dailyUsers db)) player =
        (case (dailyUsers player, select_row (leaderboard db) player) of
           (Some score, None) \<Rightarrow> Some (score, 1)
         | (Some score, Some (c, d)) \<Rightarrow> Some (c + score, d + 1)
         | (None, Some (c, d)) \<Rightarrow> if player = excluded_user then Some (c, d) else Some (c + 7, d)
         | (None, None) \<Rightarrow> None)) \<and>
   leaderboard (updateScoresBasedOnResults no_faults [''alice''] [''alice'', ''bob'']
       [''alice'' \<mapsto> 1] \<lparr>leaderboard = [(''alice'', 5, 2), (''bob'', 10, 3)], exec_log = []\<rparr>) =
     [(''alice'', 6, 3), (''bob'', 17, 3)] \<and>
   leaderboard (updateScoresBasedOnResults no_faults [''alice''] [''bob'', ''alice'']
       [''alice'' \<mapsto> 1] \<lparr>leaderboard = [(''alice'', 5, 2), (''bob'', 10, 3)], exec_log = []\<rparr>) =
     [(''alice'', 6, 3), (''bob'', 17, 3)]"
proof (intro conjI allI impI)
  fix daily_order users_order dailyUsers db player
  assume "range_order dailyUsers daily_order \<and>
      range_order (snd (score_dailyUsers no_faults daily_order dailyUsers db)) users_order"
  then have o1: "range_order dailyUsers daily_order"
    and o2: "range_order (snd (score_dailyUsers no_faults daily_order dailyUsers db)) users_order"
    by simp_all
  show "select_row (leaderboard
          (updateScoresBasedOnResults no_faults daily_order users_order dailyUsers db)) player =
        (case (dailyUsers player, select_row (leaderboard db) player) of
           (Some score, None) \<Rightarrow> Some (score, 1)
         | (Some score, Some (c, d)) \<Rightarrow> Some (c + score, d + 1)
         | (None, Some (c, d)) \<Rightarrow> if player = excluded_user then Some (c, d) else Some (c + 7, d)
         | (None, None) \<Rightarrow> None)"
    unfolding select_row_after_run [OF o1 o2]
    by (auto simp: scored_row_def split: option.split)
next
  show "leaderboard (updateScoresBasedOnResults no_faults [''alice''] [''alice'', ''bob'']
       [''alice'' \<mapsto> 1] \<lparr>leaderboard = [(''alice'', 5, 2), (''bob'', 10, 3)], exec_log = []\<rparr>) =
     [(''alice'', 6, 3), (''bob'', 17, 3)]"
    by code_simp
next
  show "leaderboard (updateScoresBasedOnResults no_faults [''alice''] [''bob'', ''alice'']
       [''alice'' \<mapsto> 1] \<lparr>leaderboard = [(''alice'', 5, 2), (''bob'', 10, 3)], exec_log = []\<rparr>) =
     [(''alice'', 6, 3), (''bob'', 17, 3)]"
    by code_simp
qed

lemma range_order_example:
  "range_order [''alice'' \<mapsto> (1 :: go_int)] [''alice'']"
  "range_order (snd (score_dailyUsers no_faults [''alice''] [''alice'' \<mapsto> 1]
       \<lparr>leaderboard = [(''alice'', 5, 2), (''bob'', 10, 3)], exec_log = []\<rparr>)) [''bob'', ''alice'']"
  by (auto simp: range_order_def dom_def marked_users select_row_def no_faults_def split: if_splits)

theorem C1_full_outer_join_witness:
  "range_order [''alice'' \<mapsto> (1 :: go_int)] [''alice''] \<and>
   range_order (snd (score_dailyUsers no_faults [''alice''] [''alice'' \<mapsto> 1]
       \<lparr>leaderboard = [(''alice'', 5, 2), (''bob'', 10, 3)], exec_log = []\<rparr>)) [''bob'', ''alice''] \<and>
   select_row (leaderboard (updateScoresBasedOnResults no_faults [''alice''] [''bob'', ''alice'']
       [''alice'' \<mapsto> 1] \<lparr>leaderboard = [(''alice'', 5, 2), (''bob'', 10, 3)], exec_log = []\<rparr>))
     ''bob'' = Some (17, 3) \<and>
   select_row (leaderboard (updateScoresBasedOnResults no_faults [''alice''] [''bob'', ''alice'']
       [''alice'' \<mapsto> 1] \<lparr>leaderboard = [(''alice'', 5, 2), (''bob'', 10, 3)], exec_log = []\<rparr>))
     ''alice'' = Some (6, 3)"
proof -
  note orders = range_order_example
  have bob: "''bob'' \<noteq> excluded_user"
    by (simp add: excluded_user_def)
  from C1_full_outer_join [THEN conjunct1, rule_format, OF conjI, OF orders, of "''bob''"] bob
  have "select_row (leaderboard (updateScoresBasedOnResults no_faults [''alice''] [''bob'', ''alice'']
       [''alice'' \<mapsto> 1] \<lparr>leaderboard = [(''alice'', 5, 2), (''bob'', 10, 3)], exec_log = []\<rparr>))
     ''bob'' = Some (17, 3)"
    by (simp add: select_row_def)
  moreover
  from C1_full_outer_join [THEN conjunct1, rule_format, OF conjI, OF orders, of "''alice''"]
  have "select_row (leaderboard (updateScoresBasedOnResults no_faults [''alice''] [''bob'', ''alice'']
       [''alice'' \<mapsto> 1] \<lparr>leaderboard = [(''alice'', 5, 2), (''bob'', 10, 3)], exec_log = []\<rparr>))
     ''alice'' = Some (6, 3)"
    by (simp add: select_row_def)
  ultimately show ?thesis
    using orders by blast
qed

text \<open>
  C5: the excluded user is never penalised. Whatever the table, the daily results without
  that user, the orders of the loops and the failures of the storage, a run leaves the
  row of the excluded user as it was and sends no statement for it.
\<close>

theorem C5_excluded_never_penalised:
  assumes "dailyUsers excluded_user = None"
  shows "select_row (leaderboard
        (updateScoresBasedOnResults f daily_order users_order dailyUsers db)) excluded_user =
      select_row (leaderboard db) excluded_user \<and>
    filter (\<lambda>st. statement_user st = excluded_user)
        (exec_log (updateScoresBasedOnResults f daily_order users_order dailyUsers db)) =
      filter (\<lambda>st. statement_user st = excluded_user) (exec_log db)"
  by (intro conjI excluded_user_untouched assms)

theorem C5_excluded_never_penalised_witness:
  "[''alice'' \<mapsto> (1 :: go_int)] excluded_user = None \<and>
   select_row (leaderboard (updateScoresBasedOnResults no_faults [''alice'']
       [excluded_user, ''alice'', ''bob''] [''alice'' \<mapsto> 1]
       \<lparr>leaderboard = [(excluded_user, 20, 4), (''bob'', 10, 3)], exec_log = []\<rparr>))
     excluded_user = Some (20, 4) \<and>
   filter (\<lambda>st. statement_user st = excluded_user)
     (exec_log (updateScoresBasedOnResults no_faults [''alice'']
       [excluded_user, ''alice'', ''bob''] [''alice'' \<mapsto> 1]
       \<lparr>leaderboard = [(excluded_user, 20, 4), (''bob'', 10, 3)], exec_log = []\<rparr>)) = []"
proof -
  have absent: "[''alice'' \<mapsto> (1 :: go_int)] excluded_user = None"
    by (simp add: excluded_user_def)
  from C5_excluded_never_penalised [where dailyUsers = "[''alice'' \<mapsto> 1]" and f = no_faults
      and daily_order = "[''alice'']" and users_order = "[excluded_user, ''alice'', ''bob'']"
      and db = "\<lparr>leaderboard = [(excluded_user, 20, 4), (''bob'', 10, 3)], exec_log = []\<rparr>",
      OF absent] absent
  show ?thesis
    by (simp add: select_row_def)
qed

text \<open>
  C7, as the specification states it: no scoring operation ever decreases a stored score
  or a stored number of days. It fails where the addition of Go's \<open>int\<close> wraps around.
  The message \<open>9223372036854775807/6 @bob\<close> stores the score \<open>2^63 - 1\<close> for bob; the
  penalty of 7 for an absence then makes it \<open>-9223372036854775802\<close>.
\<close>

theorem C7_overflow_counterexample:
  "leaderboard (fst (processWordleResultsMessage no_faults [''bob''] [''bob'']
       ''9223372036854775807/6 @bob'' \<lparr>leaderboard = [], exec_log = []\<rparr>)) =
     [(''bob'', 9223372036854775807, 1)] \<and>
   leaderboard (updateCumulativeScore no_faults ''bob'' 7 False
       \<lparr>leaderboard = [(''bob'', 9223372036854775807, 1)], exec_log = []\<rparr>) =
     [(''bob'', - 9223372036854775802, 1)] \<and>
   \<not> never_decreased (Some (9223372036854775807, 1)) (Some (- 9223372036854775802, 1))"
proof (intro conjI)
  have found: "scoreRegex_FindString ''9223372036854775807/6 @bob'' = ''9223372036854775807/6''"
    and users: "map cleanUsername (userRegex_FindAllString ''9223372036854775807/6 @bob'') = [''bob'']"
    and score: "line_score ''9223372036854775807/6'' = 9223372036854775807"
    by code_simp+
  have "parse_dailyUsers ''9223372036854775807/6 @bob'' = [''bob'' \<mapsto> 9223372036854775807]"
    using process_line_eval [OF found _ users score] by (simp add: parse_one_line)
  moreover have "leaderboard (updateScoresBasedOnResults no_faults [''bob''] [''bob'']
       [''bob'' \<mapsto> 9223372036854775807] \<lparr>leaderboard = [], exec_log = []\<rparr>) =
     [(''bob'', 9223372036854775807, 1)]"
    by code_simp
  ultimately show "leaderboard (fst (processWordleResultsMessage no_faults [''bob''] [''bob'']
       ''9223372036854775807/6 @bob'' \<lparr>leaderboard = [], exec_log = []\<rparr>)) =
     [(''bob'', 9223372036854775807, 1)]"
    by (simp add: processWordleResultsMessage_def Let_def)
next
  show "leaderboard (updateCumulativeScore no_faults ''bob'' 7 False
       \<lparr>leaderboard = [(''bob'', 9223372036854775807, 1)], exec_log = []\<rparr>) =
     [(''bob'', - 9223372036854775802, 1)]"
    by code_simp
next
  show "\<not> never_decreased (Some (9223372036854775807, 1)) (Some (- 9223372036854775802, 1))"
    by (simp add: never_decreased_def word_sle_eq)
qed

lemma sint_add_no_overflow:
  fixes c s :: go_int
  assumes "0 \<le> sint s" and "sint c + sint s < 2 ^ 63"
  shows "sint (c + s) = sint c + sint s"
proof -
  have "- (2 ^ 63) \<le> sint c"
    using sint_ge [of c] by simp
  with assms have "signed_take_bit 63 (sint c + sint s) = sint c + sint s"
    by (intro signed_take_bit_int_eq_self) auto
  then show ?thesis
    by (simp add: sint_word_ariths)
qed

text \<open>
  C7, amended: a scoring operation that adds a score that is not negative (as every
  score of a message and the penalty are) never decreases or resets the stored score
  or the stored days of any player, as long as the sums stay in the range of a 64-bit
  integer: the stored score plus the added one, and the stored days plus one, are below
  \<open>2^63\<close>. This holds whatever calls of the storage fail.
\<close>

theorem C7_monotone_without_overflow:
  assumes "select_row (leaderboard db) player = Some (c, d)"
    and "0 \<le> sint score"
    and "sint c + sint score < 2 ^ 63"
    and "sint d + 1 < 2 ^ 63"
  shows "never_decreased (Some (c, d))
      (select_row (leaderboard (updateCumulativeScore f username score incrementDays db)) player)"
proof -
  have score: "sint c \<le> sint (c + score)"
    using sint_add_no_overflow [OF assms(2,3)] assms(2) by simp
  have "sint (d + 1) = sint d + 1"
    using sint_add_no_overflow [of 1 d] assms(4) by simp
  then have days: "sint d \<le> sint (d + 1)"
    by simp
  show ?thesis
    using assms(1) score days
    by (auto simp: select_row_updateCumulativeScore never_decreased_def scored_row_def word_sle_eq)
qed

theorem C7_monotone_without_overflow_witness:
  "select_row (leaderboard \<lparr>leaderboard = [(''bob'', 10, 3)], exec_log = []\<rparr>) ''bob'' = Some (10, 3) \<and>
   0 \<le> sint (7 :: go_int) \<and> sint (10 :: go_int) + sint (7 :: go_int) < 2 ^ 63 \<and>
   sint (3 :: go_int) + 1 < 2 ^ 63 \<and>
   never_decreased (Some (10, 3))
     (select_row (leaderboard (updateCumulativeScore no_faults ''bob'' 7 False
        \<lparr>leaderboard = [(''bob'', 10, 3)], exec_log = []\<rparr>)) ''bob'')"
proof -
  have row: "select_row (leaderboard \<lparr>leaderboard = [(''bob'', 10, 3)], exec_log = []\<rparr>) ''bob'' = Some (10, 3)"
    by (simp add: select_row_def)
  have a: "0 \<le> sint (7 :: go_int)" and b: "sint (10 :: go_int) + sint (7 :: go_int) < 2 ^ 63"
    and c: "sint (3 :: go_int) + 1 < 2 ^ 63"
    by simp_all
  from C7_monotone_without_overflow [OF row a b c] row a b c show ?thesis
    by blast
qed

text \<open>
  C2, as the specification states it: when the enumeration of the known players fails,
  the daily results are still applied, as if no player were known. It fails: on that
  error \<open>updateScoresBasedOnResults\<close> returns at once. With an empty table and the
  message \<open>2/6 @alice\<close> the table stays empty, where a run that knows no player inserts
  alice with \<open>(2, 1)\<close>.
\<close>

theorem C2_not_applied_counterexample:
  "parse_dailyUsers ''2/6 @alice'' = [''alice'' \<mapsto> 2] \<and>
   processWordleResultsMessage users_query_failure [''alice''] [''alice''] ''2/6 @alice''
       \<lparr>leaderboard = [], exec_log = []\<rparr> =
     (\<lparr>leaderboard = [], exec_log = []\<rparr>, [Acknowledgment, Leaderboard []]) \<and>
   processWordleResultsMessage no_faults [''alice''] [''alice''] ''2/6 @alice''
       \<lparr>leaderboard = [], exec_log = []\<rparr> =
     (\<lparr>leaderboard = [(''alice'', 2, 1)], exec_log = [INSERT ''alice'' 2 1]\<rparr>,
      [Acknowledgment, Leaderboard [(''alice'', 2, 1)]])"
proof -
  have found: "scoreRegex_FindString ''2/6 @alice'' = ''2/6''"
    and users: "map cleanUsername (userRegex_FindAllString ''2/6 @alice'') = [''alice'']"
    and score: "line_score ''2/6'' = 2"
    by code_simp+
  have parsed: "parse_dailyUsers ''2/6 @alice'' = [''alice'' \<mapsto> 2]"
    using process_line_eval [OF found _ users score] by (simp add: parse_one_line)
  have board0: "sendLeaderboard users_query_failure \<lparr>leaderboard = [], exec_log = []\<rparr> = [Leaderboard []]"
    by code_simp
  have run: "updateScoresBasedOnResults no_faults [''alice''] [''alice''] [''alice'' \<mapsto> 2]
       \<lparr>leaderboard = [], exec_log = []\<rparr> =
     \<lparr>leaderboard = [(''alice'', 2, 1)], exec_log = [INSERT ''alice'' 2 1]\<rparr>"
    by code_simp
  have board1: "sendLeaderboard no_faults
       \<lparr>leaderboard = [(''alice'', 2, 1)], exec_log = [INSERT ''alice'' 2 1]\<rparr> =
     [Leaderboard [(''alice'', 2, 1)]]"
    by code_simp
  have failed: "updateScoresBasedOnResults users_query_failure [''alice''] [''alice'']
       [''alice'' \<mapsto> 2] \<lparr>leaderboard = [], exec_log = []\<rparr> =
     \<lparr>leaderboard = [], exec_log = []\<rparr>"
    by (simp add: updateScoresBasedOnResults_def users_query_failure_def)
  show ?thesis
    by (simp add: parsed processWordleResultsMessage_def Let_def failed board0 run board1)
qed

lemma updateScoresBasedOnResults_no_known:
  assumes "\<not> users_query_fails f" and "\<forall>u. users_scan_fails f u"
  shows "updateScoresBasedOnResults f daily_order users_order dailyUsers db =
     fold (\<lambda>user db. case dailyUsers user of None \<Rightarrow> db
                       | Some score \<Rightarrow> updateCumulativeScore f user score True db)
       daily_order db"
proof -
  have marked: "snd (score_dailyUsers f daily_order dailyUsers db) u \<noteq> Some True" for u
    using assms(2) by (simp add: marked_users)
  have "penalise_user f (snd (score_dailyUsers f daily_order dailyUsers db)) k s = s" for k s
    using marked [of k] by (simp add: penalise_user_def)
  then have "fold (penalise_user f (snd (score_dailyUsers f daily_order dailyUsers db))) ks s = s"
    for ks s
    by (induction ks) simp_all
  with assms(1) show ?thesis
    by (simp add: updateScoresBasedOnResults_def Let_def score_dailyUsers_def fst_fold_score_user)
qed

text \<open>
  C2, amended: when the query that enumerates the known players fails, the scoring
  returns at once: no daily result and no penalty is applied, no statement is sent and
  the table is left as it was. The failure does not halt the run: the acknowledgment is
  still sent and the leaderboard still rendered, from the unchanged table. When the
  query succeeds but the scan of every row fails, no player is known: the daily results
  are applied and no penalty is.
\<close>

theorem C2_enumeration_failure:
  "(\<forall>f daily_order users_order message db.
      users_query_fails f \<longrightarrow>
      processWordleResultsMessage f daily_order users_order message db =
        (db, Acknowledgment # sendLeaderboard f db)) \<and>
   (\<forall>f daily_order users_order dailyUsers db.
      \<not> users_query_fails f \<and> (\<forall>u. users_scan_fails f u) \<longrightarrow>
      updateScoresBasedOnResults f daily_order users_order dailyUsers db =
        fold (\<lambda>user db. case dailyUsers user of None \<Rightarrow> db
                          | Some score \<Rightarrow> updateCumulativeScore f user score True db)
          daily_order db)"
proof (intro conjI allI impI)
  fix f :: faults and daily_order users_order message db
  assume "users_query_fails f"
  then show "processWordleResultsMessage f daily_order users_order message db =
      (db, Acknowledgment # sendLeaderboard f db)"
    by (simp add: processWordleResultsMessage_def updateScoresBasedOnResults_def)
next
  fix f :: faults and daily_order users_order and dailyUsers :: "string \<rightharpoonup> go_int" and db
  assume "\<not> users_query_fails f \<and> (\<forall>u. users_scan_fails f u)"
  then show "updateScoresBasedOnResults f daily_order users_order dailyUsers db =
      fold (\<lambda>user db. case dailyUsers user of None \<Rightarrow> db
                        | Some score \<Rightarrow> updateCumulativeScore f user score True db)
        daily_order db"
    by (intro updateScoresBasedOnResults_no_known) simp_all
qed

theorem C2_enumeration_failure_witness:
  "users_query_fails users_query_failure \<and>
   processWordleResultsMessage users_query_failure [''alice''] [] ''2/6 @alice''
       \<lparr>leaderboard = [], exec_log = []\<rparr> =
     (\<lparr>leaderboard = [], exec_log = []\<rparr>,
      Acknowledgment # sendLeaderboard users_query_failure \<lparr>leaderboard = [], exec_log = []\<rparr>) \<and>
   \<not> users_query_fails users_scans_failure \<and>
   (\<forall>u. users_scan_fails users_scans_failure u) \<and>
   updateScoresBasedOnResults users_scans_failure [''alice''] [''alice'', ''bob'']
       [''alice'' \<mapsto> 1] \<lparr>leaderboard = [(''alice'', 5, 2), (''bob'', 10, 3)], exec_log = []\<rparr> =
     fold (\<lambda>user db. case [''alice'' \<mapsto> 1] user of None \<Rightarrow> db
                       | Some score \<Rightarrow> updateCumulativeScore users_scans_failure user score True db)
       [''alice''] \<lparr>leaderboard = [(''alice'', 5, 2), (''bob'', 10, 3)], exec_log = []\<rparr> \<and>
   leaderboard (updateScoresBasedOnResults users_scans_failure [''alice''] [''alice'', ''bob'']
       [''alice'' \<mapsto> 1] \<lparr>leaderboard = [(''alice'', 5, 2), (''bob'', 10, 3)], exec_log = []\<rparr>) =
     [(''alice'', 6, 3), (''bob'', 10, 3)]"
proof -
  have fails: "users_query_fails users_query_failure"
    by (simp add: users_query_failure_def)
  have scans: "\<not> users_query_fails users_scans_failure \<and>
      (\<forall>u. users_scan_fails users_scans_failure u)"
    by (simp add: users_scans_failure_def no_faults_def)
  have "leaderboard (updateScoresBasedOnResults users_scans_failure [''alice''] [''alice'', ''bob'']
       [''alice'' \<mapsto> 1] \<lparr>leaderboard = [(''alice'', 5, 2), (''bob'', 10, 3)], exec_log = []\<rparr>) =
     [(''alice'', 6, 3), (''bob'', 10, 3)]"
    by code_simp
  with C2_enumeration_failure [THEN conjunct1, rule_format, OF fails]
    C2_enumeration_failure [THEN conjunct2, rule_format, OF scans] fails scans
  show ?thesis
    by blast
qed

text \<open>
  C10: the cleaning of a mention can leave the empty string. The messages \<open>1/6 @<>\<close>
  and \<open>1/6 @@\<close> each give the empty username the score 1, and that username is
  stored like any other: inserted with \<open>(1, 1)\<close> into an empty table, and updated
  to \<open>(2, 2)\<close> when it is there with \<open>(1, 1)\<close>.
\<close>

theorem C10_empty_identifier:
  "parse_dailyUsers ''1/6 @<>'' = [[] \<mapsto> 1] \<and>
   parse_dailyUsers ''1/6 @@'' = [[] \<mapsto> 1] \<and>
   fst (processWordleResultsMessage no_faults [[]] [[]] ''1/6 @<>''
       \<lparr>leaderboard = [], exec_log = []\<rparr>) =
     \<lparr>leaderboard = [([], 1, 1)], exec_log = [INSERT [] 1 1]\<rparr> \<and>
   fst (processWordleResultsMessage no_faults [[]] [[]] ''1/6 @@''
       \<lparr>leaderboard = [([], 1, 1)], exec_log = []\<rparr>) =
     \<lparr>leaderboard = [([], 2, 2)], exec_log = [UPDATE [] 2 2]\<rparr>"
proof -
  have p1: "parse_dailyUsers ''1/6 @<>'' = [[] \<mapsto> 1]"
    by (simp add: parse_one_line line_1_brackets)
  have p2: "parse_dailyUsers ''1/6 @@'' = [[] \<mapsto> 1]"
    by (simp add: parse_one_line line_1_ats)
  have r1: "updateScoresBasedOnResults no_faults [[]] [[]] [[] \<mapsto> 1]
       \<lparr>leaderboard = [], exec_log = []\<rparr> =
     \<lparr>leaderboard = [([], 1, 1)], exec_log = [INSERT [] 1 1]\<rparr>"
    by code_simp
  have r2: "updateScoresBasedOnResults no_faults [[]] [[]] [[] \<mapsto> 1]
       \<lparr>leaderboard = [([], 1, 1)], exec_log = []\<rparr> =
     \<lparr>leaderboard = [([], 2, 2)], exec_log = [UPDATE [] 2 2]\<rparr>"
    by code_simp
  show ?thesis
    by (simp add: p1 p2 r1 r2 processWordleResultsMessage_def Let_def)
qed

section \<open>The statements of a run\<close>

lemma filter_user_concat:
  assumes "distinct ks" and "\<And>k st. st \<in> set (G k) \<Longrightarrow> statement_user st = k"
  shows "filter (\<lambda>st. statement_user st = p) (concat (map G ks)) =
     (if p \<in> set ks then G p else [])"
  using assms(1)
proof (induction ks)
  case Nil
  then show ?case by simp
next
  case (Cons k ks)
  have own: "filter (\<lambda>st. statement_user st = p) (G k) = (if p = k then G k else [])"
    using assms(2) [of _ k] by (auto simp: filter_empty_conv filter_id_conv)
  from Cons show ?case
    by (auto simp: own)
qed

lemma exec_log_score_dailyUsers:
  assumes "distinct ks"
  shows "exec_log (fst (score_dailyUsers f ks daily db)) =
     exec_log db @
     concat (map (\<lambda>k. case daily k of
                         None \<Rightarrow> []
                       | Some s \<Rightarrow>
                           if row_query_fails f k then []
                           else [score_statement k (select_row (leaderboard db) k) s True]) ks)"
proof -
  let ?step = "\<lambda>u db. case daily u of None \<Rightarrow> db
                    | Some s \<Rightarrow> updateCumulativeScore f u s True db"
  let ?G = "\<lambda>k old. case daily k of
                       None \<Rightarrow> []
                     | Some s \<Rightarrow> if row_query_fails f k then [] else [score_statement k old s True]"
  have frame: "select_row (leaderboard (?step k db)) k' = select_row (leaderboard db) k'"
    if "k' \<noteq> k" for k k' db
    using that by (simp add: select_row_updateCumulativeScore split: option.split)
  have log: "exec_log (?step k db) = exec_log db @ ?G k (select_row (leaderboard db) k)" for k db
    by (simp add: exec_log_updateCumulativeScore split: option.split)
  from fold_rows_log [of ?step ?G ks db, OF frame log assms] show ?thesis
    by (simp add: score_dailyUsers_def fst_fold_score_user)
qed

lemma exec_log_fold_penalise_user:
  assumes "distinct ks"
  shows "exec_log (fold (penalise_user f m) ks db) =
     exec_log db @
     concat (map (\<lambda>k. if m k = Some True \<and> k \<noteq> excluded_user \<and> \<not> row_query_fails f k
                       then [score_statement k (select_row (leaderboard db) k) 7 False]
                       else []) ks)"
proof -
  let ?G = "\<lambda>k old. if m k = Some True \<and> k \<noteq> excluded_user \<and> \<not> row_query_fails f k
                     then [score_statement k old 7 False] else []"
  have frame: "select_row (leaderboard (penalise_user f m k db)) k' = select_row (leaderboard db) k'"
    if "k' \<noteq> k" for k k' db
    using that by (simp add: select_row_penalise_user)
  have log: "exec_log (penalise_user f m k db) = exec_log db @ ?G k (select_row (leaderboard db) k)"
    for k db
    by (simp add: penalise_user_def exec_log_updateCumulativeScore)
  from fold_rows_log [of "penalise_user f m" ?G ks db, OF frame log assms] show ?thesis
    by simp
qed

text \<open>
  The statements that a run sends for a player: at most the one that applies the score of
  the day, or the penalty, to the row that the player had before the run.
\<close>

lemma run_statements_of_player:
  assumes o1: "range_order daily ks1" and d2: "distinct ks2"
  shows "filter (\<lambda>st. statement_user st = p)
       (drop (length (exec_log db)) (exec_log (updateScoresBasedOnResults f ks1 ks2 daily db))) =
     (if users_query_fails f \<or> row_query_fails f p then []
      else
        (case daily p of
           Some s \<Rightarrow> [score_statement p (select_row (leaderboard db) p) s True]
         | None \<Rightarrow>
             if p \<in> set ks2 \<and> select_row (leaderboard db) p \<noteq> None \<and>
                 \<not> users_scan_fails f p \<and> p \<noteq> excluded_user
             then [score_statement p (select_row (leaderboard db) p) 7 False]
             else []))"
proof (cases "users_query_fails f")
  case True
  then show ?thesis
    by (simp add: updateScoresBasedOnResults_def)
next
  case False
  have d1: "distinct ks1"
    using o1 by (simp add: range_order_def)
  let ?st = "score_dailyUsers f ks1 daily db"
  let ?G1 = "\<lambda>k. case daily k of
                     None \<Rightarrow> []
                   | Some s \<Rightarrow>
                       if row_query_fails f k then []
                       else [score_statement k (select_row (leaderboard db) k) s True]"
  let ?G2 = "\<lambda>k. if snd ?st k = Some True \<and> k \<noteq> excluded_user \<and> \<not> row_query_fails f k
                   then [score_statement k (select_row (leaderboard (fst ?st)) k) 7 False]
                   else []"
  have log: "exec_log (updateScoresBasedOnResults f ks1 ks2 daily db) =
      exec_log db @ concat (map ?G1 ks1) @ concat (map ?G2 ks2)"
    using False
    by (simp add: updateScoresBasedOnResults_def Let_def exec_log_fold_penalise_user [OF d2]
        exec_log_score_dailyUsers [OF d1])
  have u1: "statement_user st = k" if "st \<in> set (?G1 k)" for k st
    using that by (auto split: option.splits if_splits)
  have u2: "statement_user st = k" if "st \<in> set (?G2 k)" for k st
    using that by (auto split: if_splits)
  have f1: "filter (\<lambda>st. statement_user st = p) (concat (map ?G1 ks1)) =
      (if p \<in> set ks1 then ?G1 p else [])"
    using d1 u1 by (rule filter_user_concat)
  have f2: "filter (\<lambda>st. statement_user st = p) (concat (map ?G2 ks2)) =
      (if p \<in> set ks2 then ?G2 p else [])"
    using d2 u2 by (rule filter_user_concat)
  have mem: "p \<in> set ks1 \<longleftrightarrow> daily p \<noteq> None"
    using o1 by (rule range_order_mem)
  have same: "select_row (leaderboard (fst ?st)) p = select_row (leaderboard db) p"
    if "daily p = None"
    using that by (simp add: select_row_score_dailyUsers [OF d1])
  have "filter (\<lambda>st. statement_user st = p)
       (drop (length (exec_log db)) (exec_log (updateScoresBasedOnResults f ks1 ks2 daily db))) =
      (if p \<in> set ks1 then ?G1 p else []) @ (if p \<in> set ks2 then ?G2 p else [])"
    by (simp add: log f1 f2)
  also have "\<dots> =
     (if row_query_fails f p then []
      else
        (case daily p of
           Some s \<Rightarrow> [score_statement p (select_row (leaderboard db) p) s True]
         | None \<Rightarrow>
             if p \<in> set ks2 \<and> select_row (leaderboard db) p \<noteq> None \<and>
                 \<not> users_scan_fails f p \<and> p \<noteq> excluded_user
             then [score_statement p (select_row (leaderboard db) p) 7 False]
             else []))"
    using same by (auto simp: mem marked_users split: option.split)
  finally show ?thesis
    using False by simp
qed

text \<open>
  C8: in a run, whatever calls of the storage fail, the row of a player is written at
  most once. For a player of the daily results the only statement, if any, is the
  scored update of the row that the player had before the run (an INSERT of
  \<open>(score, 1)\<close>, or an UPDATE to \<open>(c + score, d + 1)\<close>), never also the penalty; for
  any other player it is, if any, the penalty on that row (an UPDATE to \<open>(c + 7, d)\<close>).
\<close>

theorem C8_one_write_per_player:
  assumes "range_order dailyUsers daily_order"
    and "range_order (snd (score_dailyUsers f daily_order dailyUsers db)) users_order"
  shows "let written = filter (\<lambda>st. statement_user st = player)
          (drop (length (exec_log db))
             (exec_log (updateScoresBasedOnResults f daily_order users_order dailyUsers db)));
        old = select_row (leaderboard db) player
     in case dailyUsers player of
          Some score \<Rightarrow> written = [] \<or> written = [score_statement player old score True]
        | None \<Rightarrow> written = [] \<or> written = [score_statement player old 7 False]"
proof -
  have "distinct users_order"
    using assms(2) by (simp add: range_order_def)
  from run_statements_of_player [OF assms(1) this, of player db f] show ?thesis
    by (auto simp: Let_def split: option.split)
qed

theorem C8_one_write_per_player_witness:
  "range_order [''alice'' \<mapsto> (1 :: go_int)] [''alice''] \<and>
   range_order (snd (score_dailyUsers no_faults [''alice''] [''alice'' \<mapsto> 1]
       \<lparr>leaderboard = [(''alice'', 5, 2), (''bob'', 10, 3)], exec_log = []\<rparr>)) [''bob'', ''alice''] \<and>
   (let written = filter (\<lambda>st. statement_user st = ''bob'')
          (exec_log (updateScoresBasedOnResults no_faults [''alice''] [''bob'', ''alice'']
             [''alice'' \<mapsto> 1]
             \<lparr>leaderboard = [(''alice'', 5, 2), (''bob'', 10, 3)], exec_log = []\<rparr>))
    in written = [] \<or> written = [UPDATE ''bob'' 17 3])"
proof -
  note orders = range_order_example
  from C8_one_write_per_player [OF orders, of "''bob''"] orders show ?thesis
    by (simp add: Let_def select_row_def score_statement_def)
qed

section \<open>Claims about the leaderboard\<close>

lemma order_key_le_iff: "order_key r1 \<le> order_key r2 \<longleftrightarrow> sql_before r1 r2"
  by (cases r1; cases r2)
    (auto simp: order_key_def sql_before_def less_eq_prod_def dest: signed_word_eqI)

lemma sorted_select_leaderboard: "sorted_wrt sql_before (select_leaderboard rows)"
proof -
  have "sorted (map order_key (select_leaderboard rows))"
    by (simp add: select_leaderboard_def)
  then show ?thesis
    by (simp add: sorted_map order_key_le_iff)
qed

lemma mset_select_leaderboard:
  "mset (select_leaderboard rows) =
     mset (filter (\<lambda>(username, score, days_played). 0 <s days_played) rows)"
  by (simp add: select_leaderboard_def)

lemma avg_examples:
  "sql_average 9007199254740993 1 = 9007199254740992"
  "sql_average 9007199254740992 1 = 9007199254740992"
  "real_average 9007199254740993 1 = 9007199254740993"
  "real_average 9007199254740992 1 = 9007199254740992"
  by code_simp+

lemma key_examples:
  "order_key (''a'', 9007199254740993, 1) = (9007199254740992, - 1, ''a'')"
  "order_key (''b'', 9007199254740992, 1) = (9007199254740992, - 1, ''b'')"
  by (simp_all add: order_key_def avg_examples)

lemma board_example:
  "select_leaderboard [(''a'', 9007199254740993, 1), (''b'', 9007199254740992, 1)] =
     [(''a'', 9007199254740993, 1), (''b'', 9007199254740992, 1)]"
  by (simp add: select_leaderboard_def word_sless_alt key_examples less_eq_prod_def)

text \<open>
  C4, as the specification states it: the leaderboard is sorted ascending by the average
  as a real number. It fails where two averages differ as real numbers and agree as
  doubles. The message \<open>9007199254740993/6 @a\<close>, \<open>9007199254740992/6 @b\<close> stores
  the scores \<open>2^53 + 1\<close> for a and \<open>2^53\<close> for b, each on one day. Both averages are
  the double \<open>2^53\<close>, the days tie, and a is ranked before b by its name, though the
  average of b is the smaller real number.
\<close>

theorem C4_real_average_counterexample:
  "snd (processWordleResultsMessage no_faults [''a'', ''b''] [''a'', ''b'']
       ''9007199254740993/6 @a\<newline>9007199254740992/6 @b''
       \<lparr>leaderboard = [], exec_log = []\<rparr>) =
     [Acknowledgment,
      Leaderboard [(''a'', 9007199254740993, 1), (''b'', 9007199254740992, 1)]] \<and>
   \<not> ranked_by_real_average [(''a'', 9007199254740993, 1), (''b'', 9007199254740992, 1)]"
proof -
  have a: "scoreRegex_FindString ''9007199254740993/6 @a'' = ''9007199254740993/6''"
    "map cleanUsername (userRegex_FindAllString ''9007199254740993/6 @a'') = [''a'']"
    "line_score ''9007199254740993/6'' = 9007199254740993"
    by code_simp+
  have b: "scoreRegex_FindString ''9007199254740992/6 @b'' = ''9007199254740992/6''"
    "map cleanUsername (userRegex_FindAllString ''9007199254740992/6 @b'') = [''b'']"
    "line_score ''9007199254740992/6'' = 9007199254740992"
    by code_simp+
  have parsed: "parse_dailyUsers ''9007199254740993/6 @a\<newline>9007199254740992/6 @b'' =
      [''a'' \<mapsto> 9007199254740993, ''b'' \<mapsto> 9007199254740992]"
    using parse_dailyUsers_snoc [of "''9007199254740992/6 @b''" "''9007199254740993/6 @a''"]
      process_line_eval [OF a(1) _ a(2,3)] process_line_eval [OF b(1) _ b(2,3)]
    by (simp add: parse_one_line)
  have run: "updateScoresBasedOnResults no_faults [''a'', ''b''] [''a'', ''b'']
        [''a'' \<mapsto> 9007199254740993, ''b'' \<mapsto> 9007199254740992]
        \<lparr>leaderboard = [], exec_log = []\<rparr> =
      \<lparr>leaderboard = [(''a'', 9007199254740993, 1), (''b'', 9007199254740992, 1)],
         exec_log = [INSERT ''a'' 9007199254740993 1, INSERT ''b'' 9007199254740992 1]\<rparr>"
    by code_simp
  have "\<not> ranked_by_real_average [(''a'', 9007199254740993, 1), (''b'', 9007199254740992, 1)]"
    by (simp add: ranked_by_real_average_def spec_before_def avg_examples)
  moreover have "sendLeaderboard no_faults
        \<lparr>leaderboard = [(''a'', 9007199254740993, 1), (''b'', 9007199254740992, 1)],
           exec_log = [INSERT ''a'' 9007199254740993 1, INSERT ''b'' 9007199254740992 1]\<rparr> =
      [Leaderboard [(''a'', 9007199254740993, 1), (''b'', 9007199254740992, 1)]]"
    by (simp add: sendLeaderboard_def no_faults_def board_example)
  ultimately show ?thesis
    by (simp add: processWordleResultsMessage_def Let_def parsed run)
qed

text \<open>
  C4, amended: the leaderboard holds exactly the rows with more than 0 days (of those
  whose scan succeeds; none when the query fails), each once, and so never a row with 0
  days. It is sorted ascending by the average as SQLite computes it, the quotient of
  the score by the days in double precision, with ties broken first by descending days
  and then by ascending username.
\<close>

theorem C4_leaderboard_order:
  "\<exists>rows.
     sendLeaderboard f db = (if board_query_fails f then [] else [Leaderboard rows]) \<and>
     mset rows =
       mset (filter (\<lambda>(username, score, days_played).
                       0 <s days_played \<and> \<not> board_scan_fails f username) (leaderboard db)) \<and>
     list_all (\<lambda>(username, score, days_played). 0 <s days_played) rows \<and>
     sorted_wrt sql_before rows"
proof -
  let ?rows = "filter (\<lambda>(username, totalScore, daysPlayed). \<not> board_scan_fails f username)
      (select_leaderboard (leaderboard db))"
  have "sendLeaderboard f db = (if board_query_fails f then [] else [Leaderboard ?rows])"
    by (simp add: sendLeaderboard_def)
  moreover have "mset ?rows =
      mset (filter (\<lambda>(username, score, days_played).
                      0 <s days_played \<and> \<not> board_scan_fails f username) (leaderboard db))"
  proof -
    let ?Q = "\<lambda>(username, totalScore, daysPlayed). \<not> board_scan_fails f username"
    let ?P = "\<lambda>(username, score, days_played). 0 <s days_played"
    have "mset ?rows = filter_mset ?Q (mset (select_leaderboard (leaderboard db)))"
      by (simp only: mset_filter)
    also have "\<dots> = mset (filter ?Q (filter ?P (leaderboard db)))"
      by (simp only: mset_select_leaderboard mset_filter)
    also have "filter ?Q (filter ?P (leaderboard db)) =
        filter (\<lambda>(username, score, days_played).
                  0 <s days_played \<and> \<not> board_scan_fails f username) (leaderboard db)"
      by (simp add: case_prod_unfold)
    finally show ?thesis .
  qed
  moreover have "set (select_leaderboard (leaderboard db)) \<subseteq>
      {r. case r of (username, score, days_played) \<Rightarrow> 0 <s days_played}"
    by (auto simp: select_leaderboard_def)
  then have "list_all (\<lambda>(username, score, days_played). 0 <s days_played) ?rows"
    by (auto simp: list_all_iff)
  moreover have "sorted_wrt sql_before ?rows"
    by (intro sorted_wrt_filter sorted_select_leaderboard)
  ultimately show ?thesis
    by blast
qed

theorem C4_leaderboard_order_witness:
  "\<exists>rows.
     sendLeaderboard no_faults
         \<lparr>leaderboard = [(''carol'', 7, 0), (''alice'', 4, 1), (''bob'', 8, 2)], exec_log = []\<rparr> =
       (if board_query_fails no_faults then [] else [Leaderboard rows]) \<and>
     mset rows =
       mset (filter (\<lambda>(username, score, days_played).
                       0 <s days_played \<and> \<not> board_scan_fails no_faults username)
               (leaderboard
                  \<lparr>leaderboard = [(''carol'', 7, 0), (''alice'', 4, 1), (''bob'', 8, 2)],
                     exec_log = []\<rparr>)) \<and>
     list_all (\<lambda>(username, score, days_played). 0 <s days_played) rows \<and>
     sorted_wrt sql_before rows"
  by (rule C4_leaderboard_order)

end
